theory Spec2Isabelle
  imports Main "HOL-Library.Word" "HOL-Library.Monad_Syntax" "HOL-Library.Code_Target_Numeral"
begin

unbundle bit_operations_syntax

section \<open>Sectors, bytes and constants\<close>

text \<open>
  The file system of \<^verbatim>\<open>src/cache.c\<close>, \<^verbatim>\<open>src/inode.c\<close> and the two unnamed parts
  (the facade \<^verbatim>\<open>filesys.c\<close> and an earlier revision of \<^verbatim>\<open>inode.c\<close>) runs on i386:
  \<^verbatim>\<open>disk_sector_t\<close> is an unsigned 32-bit integer, \<^verbatim>\<open>off_t\<close> a signed one, and the
  words of a sector are little-endian. A value of type \<open>'a option\<close> returned by an
  operation is \<open>None\<close> when the C code does not return: a failed \<^verbatim>\<open>ASSERT\<close> (a kernel
  panic) or undefined behaviour (an out-of-bounds \<^verbatim>\<open>memcpy\<close>, a signed overflow).
  Locks are left out (one thread is modelled), and so are \<^verbatim>\<open>calloc\<close>/\<^verbatim>\<open>free\<close>:
  memory allocation is taken to succeed.
\<close>

type_synonym byte = "8 word"
type_synonym disk_sector_t = "32 word"

text \<open>
  Modelled from the spec: \<^verbatim>\<open>devices/disk.h\<close> is missing from the sources; section 3 of
  the spec gives the sector size S = 512, so that a sector holds N = 128 sector indices.
\<close>

definition DISK_SECTOR_SIZE :: nat where
  "DISK_SECTOR_SIZE = 512"

definition CACHE_MAX :: int where
  "CACHE_MAX = 64"

definition word_of_bytes :: "byte list \<Rightarrow> 32 word" where
  "word_of_bytes bs = word_of_nat (foldr (\<lambda>b n. unat b + 256 * n) bs 0)"

definition bytes_of_word :: "32 word \<Rightarrow> byte list" where
  "bytes_of_word w = map (\<lambda>i. word_of_nat (unat w div 256 ^ i)) [0..<4]"

section \<open>The buffer cache (\<^verbatim>\<open>src/cache.c\<close>)\<close>

record cache =
  sector :: disk_sector_t
  dirty :: bool
  data :: "byte list"

text \<open>
  The global state: the list \<^verbatim>\<open>caches\<close> (front = most recently used), the counter
  \<^verbatim>\<open>cache_count\<close>, the contents of \<^verbatim>\<open>filesys_disk\<close>, and the free-map.

  Modelled from the spec: \<^verbatim>\<open>free-map.c\<close> is missing from the sources; section 4.1 of the
  spec makes it a bitmap of allocated sectors (\<open>True\<close> = allocated) with first-fit
  allocation of one sector and a release that clears the sector's bit.
\<close>

record fs =
  caches :: "cache list"
  cache_count :: int
  disk :: "disk_sector_t \<Rightarrow> byte list"
  free_map :: "bool list"

definition cache_init :: "fs \<Rightarrow> fs" where
  "cache_init st = st\<lparr>caches := [], cache_count := 0\<rparr>"

definition cache_save :: "cache \<Rightarrow> fs \<Rightarrow> fs" where
  "cache_save c st = (if dirty c then st\<lparr>disk := (disk st)(sector c := data c)\<rparr> else st)"

definition cache_save_all :: "fs \<Rightarrow> fs" where
  "cache_save_all st = fold cache_save (caches st) st"

text \<open>\<^verbatim>\<open>list_pop_back\<close> asserts that the list is not empty.\<close>

definition cache_evict :: "fs \<Rightarrow> fs option" where
  "cache_evict st =
     (if caches st = [] then None
      else Some (cache_save (last (caches st))
             (st\<lparr>caches := butlast (caches st), cache_count := cache_count st - 1\<rparr>)))"

text \<open>The new slot is pushed to the front: the pointer returned is the front slot.\<close>

definition cache_make :: "fs \<Rightarrow> disk_sector_t \<Rightarrow> bool \<Rightarrow> fs option" where
  "cache_make st s rd = do {
     st1 \<leftarrow> (if cache_count st = CACHE_MAX then cache_evict st else Some st);
     let c = \<lparr>sector = s, dirty = False,
              data = (if rd then disk st1 s else replicate DISK_SECTOR_SIZE 0)\<rparr>;
     Some (st1\<lparr>caches := c # caches st1, cache_count := cache_count st1 + 1\<rparr>)
   }"

fun cache_index :: "disk_sector_t \<Rightarrow> cache list \<Rightarrow> nat option" where
  "cache_index s [] = None"
| "cache_index s (c # cs) = (if sector c = s then Some 0 else map_option Suc (cache_index s cs))"

text \<open>A slot pointer is the slot's position in the list; \<open>None\<close> is the null pointer.\<close>

definition cache_lookup :: "fs \<Rightarrow> disk_sector_t \<Rightarrow> bool \<Rightarrow> (nat option \<times> fs) option" where
  "cache_lookup st s mk =
     (case cache_index s (caches st) of
        Some i \<Rightarrow> Some (Some i, st)
      | None \<Rightarrow>
          if mk then map_option (\<lambda>st'. (Some 0, st')) (cache_make st s True)
          else Some (None, st))"

definition list_remove :: "nat \<Rightarrow> 'a list \<Rightarrow> 'a list" where
  "list_remove i xs = take i xs @ drop (Suc i) xs"

definition cache_backup :: "fs \<Rightarrow> fs" where
  "cache_backup st = cache_save_all st"

definition cache_done :: "fs \<Rightarrow> fs" where
  "cache_done st = (cache_save_all st)\<lparr>caches := []\<rparr>"

definition cache_create :: "fs \<Rightarrow> disk_sector_t \<Rightarrow> fs option" where
  "cache_create st s = cache_make st s False"

text \<open>
  \<^verbatim>\<open>off + size\<close> is computed in \<^verbatim>\<open>size_t\<close>; whenever \<open>0 \<le> off \<and> off + size \<le> 512\<close> fails,
  either the \<^verbatim>\<open>ASSERT\<close> fails or the \<^verbatim>\<open>memcpy\<close> leaves the slot's buffer. A buffer
  shorter than the size is read past its end.
\<close>

definition patch :: "byte list \<Rightarrow> nat \<Rightarrow> byte list \<Rightarrow> byte list" where
  "patch d off bs = take off d @ bs @ drop (off + length bs) d"

definition cache_write ::
  "fs \<Rightarrow> disk_sector_t \<Rightarrow> byte list \<Rightarrow> int \<Rightarrow> nat \<Rightarrow> fs option" where
  "cache_write st s buf off n =
     (if \<not> (0 \<le> off \<and> off + int n \<le> int DISK_SECTOR_SIZE) \<or> length buf < n then None
      else if n = 0 then Some st
      else do {
        (p, st1) \<leftarrow> cache_lookup st s True;
        i \<leftarrow> p;
        let c = caches st1 ! i;
        let c' = c\<lparr>data := patch (data c) (nat off) (take n buf), dirty := True\<rparr>;
        Some (st1\<lparr>caches := c' # list_remove i (caches st1)\<rparr>)
      })"

definition cache_read ::
  "fs \<Rightarrow> disk_sector_t \<Rightarrow> int \<Rightarrow> nat \<Rightarrow> (byte list \<times> fs) option" where
  "cache_read st s off n =
     (if \<not> (0 \<le> off \<and> off + int n \<le> int DISK_SECTOR_SIZE) then None
      else if n = 0 then Some ([], st)
      else do {
        (p, st1) \<leftarrow> cache_lookup st s True;
        i \<leftarrow> p;
        let c = caches st1 ! i;
        Some (take n (drop (nat off) (data c)), st1\<lparr>caches := c # list_remove i (caches st1)\<rparr>)
      })"

definition cache_remove :: "fs \<Rightarrow> disk_sector_t \<Rightarrow> fs" where
  "cache_remove st s =
     (case cache_index s (caches st) of
        None \<Rightarrow> st
      | Some i \<Rightarrow> st\<lparr>caches := list_remove i (caches st), cache_count := cache_count st - 1\<rparr>)"

text \<open>
  The cache states the interface can produce: \<^verbatim>\<open>cache_init\<close> from any state, then any
  sequence of the operations of \<^verbatim>\<open>cache.h\<close> that return.
\<close>

inductive cache_reachable :: "fs \<Rightarrow> bool" where
  reach_init: "cache_reachable (cache_init st)"
| reach_backup: "cache_reachable st \<Longrightarrow> cache_reachable (cache_backup st)"
| reach_create: "cache_reachable st \<Longrightarrow> cache_create st s = Some st' \<Longrightarrow> cache_reachable st'"
| reach_write: "cache_reachable st \<Longrightarrow> cache_write st s buf off n = Some st' \<Longrightarrow> cache_reachable st'"
| reach_read: "cache_reachable st \<Longrightarrow> cache_read st s off n = Some (bs, st') \<Longrightarrow> cache_reachable st'"
| reach_remove: "cache_reachable st \<Longrightarrow> cache_reachable (cache_remove st s)"

section \<open>The free-map\<close>

text \<open>
  Modelled from the spec: \<^verbatim>\<open>free_map_allocate (1, &sector)\<close> is first-fit over the bitmap
  and fails when no bit is clear; \<^verbatim>\<open>free_map_release (sector, 1)\<close> clears the bit.
\<close>

fun first_free :: "bool list \<Rightarrow> nat option" where
  "first_free [] = None"
| "first_free (b # bs) = (if \<not> b then Some 0 else map_option Suc (first_free bs))"

definition free_map_allocate :: "bool list \<Rightarrow> (disk_sector_t \<times> bool list) option" where
  "free_map_allocate fm =
     (case first_free fm of None \<Rightarrow> None | Some i \<Rightarrow> Some (word_of_nat i, fm[i := True]))"

definition free_map_release :: "bool list \<Rightarrow> disk_sector_t \<Rightarrow> bool list" where
  "free_map_release fm s = fm[unat s := False]"

section \<open>The inode layer (\<^verbatim>\<open>src/inode.c\<close>)\<close>

definition INODE_MAGIC :: "32 word" where
  "INODE_MAGIC = 0x494e4f44"

definition DIRECT_BLOCK :: int where
  "DIRECT_BLOCK = 12"

definition SINGLE_BLOCK :: int where
  "SINGLE_BLOCK = int DISK_SECTOR_SIZE div 4"

text \<open>
  \<^verbatim>\<open>struct inode_disk\<close> on i386: \<^verbatim>\<open>length\<close> at byte 0, \<^verbatim>\<open>dir\<close> at byte 4 (one byte
  and three of padding), \<^verbatim>\<open>direct[i]\<close> at byte \<open>8 + 4 * i\<close>, \<^verbatim>\<open>indirect\<close> at byte 56,
  \<^verbatim>\<open>double_indirect\<close> at byte 60, \<^verbatim>\<open>magic\<close> at byte 64; 68 bytes in all.
\<close>

record inode_disk =
  ilength :: int
  dir :: bool
  direct :: "disk_sector_t list"
  indirect :: disk_sector_t
  double_indirect :: disk_sector_t
  magic :: "32 word"

definition OFS_DIRECT :: int where "OFS_DIRECT = 8"
definition OFS_INDIRECT :: int where "OFS_INDIRECT = 56"
definition OFS_DOUBLE :: int where "OFS_DOUBLE = 60"
definition SIZEOF_INODE_DISK :: nat where "SIZEOF_INODE_DISK = 68"

definition inode_disk_bytes :: "inode_disk \<Rightarrow> byte list" where
  "inode_disk_bytes d =
     bytes_of_word (word_of_int (ilength d)) @ [if dir d then 1 else 0, 0, 0, 0]
     @ concat (map bytes_of_word (direct d))
     @ bytes_of_word (indirect d) @ bytes_of_word (double_indirect d) @ bytes_of_word (magic d)"

definition word_at :: "byte list \<Rightarrow> nat \<Rightarrow> 32 word" where
  "word_at bs off = word_of_bytes (take 4 (drop off bs))"

text \<open>The in-memory inode; the list linkage is the position in \<^verbatim>\<open>open_inodes\<close>.\<close>

record inode =
  isector :: disk_sector_t
  open_cnt :: int
  removed :: bool
  deny_write_cnt :: int

text \<open>C's division and remainder truncate towards zero.\<close>

definition c_div :: "int \<Rightarrow> int \<Rightarrow> int" where
  "c_div a b = sgn a * sgn b * (\<bar>a\<bar> div \<bar>b\<bar>)"

definition c_mod :: "int \<Rightarrow> int \<Rightarrow> int" where
  "c_mod a b = a - b * c_div a b"

text \<open>
  The macro \<^verbatim>\<open>MODIFY_CACHE\<close>: read the index word at byte \<open>off\<close> of \<open>s\<close>; when it is 0,
  allocate a sector, store its number in the word and create its zeroed slot. The
  \<^verbatim>\<open>ASSERT (success)\<close> makes a failed allocation a panic.
\<close>

definition MODIFY_CACHE :: "fs \<Rightarrow> disk_sector_t \<Rightarrow> int \<Rightarrow> (disk_sector_t \<times> fs) option" where
  "MODIFY_CACHE st s off = do {
     (bs, st1) \<leftarrow> cache_read st s off 4;
     if word_of_bytes bs = 0 then
       (case free_map_allocate (free_map st1) of
          None \<Rightarrow> None
        | Some (p, fm) \<Rightarrow> do {
            st2 \<leftarrow> cache_write (st1\<lparr>free_map := fm\<rparr>) s (bytes_of_word p) off 4;
            st3 \<leftarrow> cache_create st2 p;
            Some (p, st3)
          })
     else Some (word_of_bytes bs, st1)
   }"

definition byte_to_sector :: "fs \<Rightarrow> inode \<Rightarrow> int \<Rightarrow> (disk_sector_t \<times> fs) option" where
  "byte_to_sector st inode pos = do {
     (bs, st1) \<leftarrow> cache_read st (isector inode) 0 4;
     if pos < sint (word_of_bytes bs) then
       let num = c_div pos (int DISK_SECTOR_SIZE); single = SINGLE_BLOCK in
       if num < DIRECT_BLOCK then MODIFY_CACHE st1 (isector inode) (OFS_DIRECT + 4 * num)
       else if num < DIRECT_BLOCK + single then do {
         (s1, st2) \<leftarrow> MODIFY_CACHE st1 (isector inode) OFS_INDIRECT;
         MODIFY_CACHE st2 s1 (4 * (num - DIRECT_BLOCK))
       }
       else do {
         (s1, st2) \<leftarrow> MODIFY_CACHE st1 (isector inode) OFS_DOUBLE;
         (s2, st3) \<leftarrow> MODIFY_CACHE st2 s1 (4 * c_div (num - (DIRECT_BLOCK + single)) single);
         MODIFY_CACHE st3 s2 (4 * c_mod (num - (DIRECT_BLOCK + single)) single)
       }
     else Some (- 1, st1)
   }"

definition inode_length :: "fs \<Rightarrow> inode \<Rightarrow> (int \<times> fs) option" where
  "inode_length st inode = do {
     (bs, st1) \<leftarrow> cache_read st (isector inode) 0 4;
     Some (sint (word_of_bytes bs), st1)
   }"

text \<open>
  \<^verbatim>\<open>inode_create\<close>: the \<^verbatim>\<open>calloc\<close>ed image has every field 0 but \<^verbatim>\<open>length\<close> and
  \<^verbatim>\<open>magic\<close>, and for sector 0 (the free-map's own inode) \<^verbatim>\<open>direct[0]\<close>, allocated under
  an \<^verbatim>\<open>ASSERT\<close>.
\<close>

definition inode_create :: "fs \<Rightarrow> disk_sector_t \<Rightarrow> int \<Rightarrow> (bool \<times> fs) option" where
  "inode_create st s len =
     (if \<not> 0 \<le> len then None
      else
        (case (if s = 0
               then map_option (\<lambda>(p, fm). (p, st\<lparr>free_map := fm\<rparr>)) (free_map_allocate (free_map st))
               else Some (0, st)) of
           None \<Rightarrow> None
         | Some (d0, st1) \<Rightarrow> do {
             let d = \<lparr>ilength = len, dir = False, direct = d0 # replicate 11 0,
                      indirect = 0, double_indirect = 0, magic = INODE_MAGIC\<rparr>;
             st2 \<leftarrow> cache_create st1 s;
             st3 \<leftarrow> cache_write st2 s (inode_disk_bytes d) 0 SIZEOF_INODE_DISK;
             Some (True, st3)
           }))"

definition inode_open_new :: "disk_sector_t \<Rightarrow> inode" where
  "inode_open_new s = \<lparr>isector = s, open_cnt = 1, removed = False, deny_write_cnt = 0\<rparr>"

text \<open>\<^verbatim>\<open>open_cnt++\<close> on \<^verbatim>\<open>INT_MAX\<close> is undefined.\<close>

definition inode_reopen :: "inode \<Rightarrow> inode option" where
  "inode_reopen inode =
     (if open_cnt inode = 2 ^ 31 - 1 then None else Some (inode\<lparr>open_cnt := open_cnt inode + 1\<rparr>))"

text \<open>
  \<^verbatim>\<open>inode_open\<close> on the list of open inodes: the inode found for the sector is reopened,
  otherwise a new one is pushed to the front.
\<close>

fun inode_index :: "disk_sector_t \<Rightarrow> inode list \<Rightarrow> nat option" where
  "inode_index s [] = None"
| "inode_index s (i # is) = (if isector i = s then Some 0 else map_option Suc (inode_index s is))"

definition inode_open :: "inode list \<Rightarrow> disk_sector_t \<Rightarrow> inode list option" where
  "inode_open open_inodes s =
     (case inode_index s open_inodes of
        Some k \<Rightarrow> map_option (\<lambda>i. open_inodes[k := i]) (inode_reopen (open_inodes ! k))
      | None \<Rightarrow> Some (inode_open_new s # open_inodes))"

definition inode_remove :: "inode \<Rightarrow> inode" where
  "inode_remove inode = inode\<lparr>removed := True\<rparr>"

definition inode_deny_write :: "inode \<Rightarrow> inode option" where
  "inode_deny_write inode =
     (let inode' = inode\<lparr>deny_write_cnt := deny_write_cnt inode + 1\<rparr>
      in if deny_write_cnt inode' \<le> open_cnt inode' then Some inode' else None)"

definition inode_allow_write :: "inode \<Rightarrow> inode option" where
  "inode_allow_write inode =
     (if 0 < deny_write_cnt inode \<and> deny_write_cnt inode \<le> open_cnt inode
      then Some (inode\<lparr>deny_write_cnt := deny_write_cnt inode - 1\<rparr>) else None)"

text \<open>
  \<^verbatim>\<open>inode_close\<close> frees the blocks of a removed inode at the last close. A pair
  \<open>(st, log)\<close> threads the state and the sectors passed to \<^verbatim>\<open>free_map_release\<close>, in
  call order. \<open>release purged freed\<close> is \<^verbatim>\<open>cache_remove (purged)\<close> followed by
  \<^verbatim>\<open>free_map_release (freed, 1)\<close>: the innermost loop of the source purges
  \<^verbatim>\<open>double_indirect[j]\<close> and frees \<^verbatim>\<open>double_indirect[i]\<close>.
\<close>

definition release ::
  "disk_sector_t \<Rightarrow> disk_sector_t \<Rightarrow> fs \<times> disk_sector_t list \<Rightarrow> fs \<times> disk_sector_t list" where
  "release purged freed =
     (\<lambda>(st, log). ((cache_remove st purged)\<lparr>free_map := free_map_release (free_map st) freed\<rparr>,
                    log @ [freed]))"

definition close_direct ::
  "byte list \<Rightarrow> fs \<times> disk_sector_t list \<Rightarrow> fs \<times> disk_sector_t list" where
  "close_direct d =
     fold (\<lambda>i. if word_at d (8 + 4 * i) \<noteq> 0
                then release (word_at d (8 + 4 * i)) (word_at d (8 + 4 * i)) else id)
       [0..<12]"

definition close_single ::
  "byte list \<Rightarrow> fs \<times> disk_sector_t list \<Rightarrow> fs \<times> disk_sector_t list" where
  "close_single blk =
     fold (\<lambda>i. if word_at blk (4 * i) \<noteq> 0
                then release (word_at blk (4 * i)) (word_at blk (4 * i)) else id)
       [0..<128]"

definition close_inner ::
  "byte list \<Rightarrow> nat \<Rightarrow> fs \<times> disk_sector_t list \<Rightarrow> fs \<times> disk_sector_t list" where
  "close_inner blk2 i =
     fold (\<lambda>j. if word_at blk2 (4 * j) \<noteq> 0
                then release (word_at blk2 (4 * j)) (word_at blk2 (4 * i)) else id)
       [0..<128]"

fun close_double ::
  "byte list \<Rightarrow> nat list \<Rightarrow> fs \<times> disk_sector_t list \<Rightarrow> (fs \<times> disk_sector_t list) option" where
  "close_double blk1 [] cs = Some cs"
| "close_double blk1 (i # is) (st, log) =
     (if word_at blk1 (4 * i) \<noteq> 0 then
        (case cache_read st (word_at blk1 (4 * i)) 0 DISK_SECTOR_SIZE of
           None \<Rightarrow> None
         | Some (blk2, st1) \<Rightarrow>
             close_double blk1 is
               (close_inner blk2 i
                 (release (word_at blk1 (4 * i)) (word_at blk1 (4 * i)) (st1, log))))
      else close_double blk1 is (st, log))"

definition close_blocks :: "fs \<Rightarrow> inode \<Rightarrow> (fs \<times> disk_sector_t list) option" where
  "close_blocks st inode = do {
     (d, st1) \<leftarrow> cache_read st (isector inode) 0 SIZEOF_INODE_DISK;
     let cs1 = close_direct d (release (isector inode) (isector inode) (st1, []));
     let indirect_sector = word_at d 56;
     let double_indirect_sector = word_at d 60;
     cs2 \<leftarrow> (if indirect_sector \<noteq> 0 then
              (case cache_read (fst cs1) indirect_sector 0 DISK_SECTOR_SIZE of
                 None \<Rightarrow> None
               | Some (blk, st2) \<Rightarrow>
                   Some (close_single blk (release indirect_sector indirect_sector (st2, snd cs1))))
            else Some cs1);
     (if double_indirect_sector \<noteq> 0 then
        (case cache_read (fst cs2) double_indirect_sector 0 DISK_SECTOR_SIZE of
           None \<Rightarrow> None
         | Some (blk1, st3) \<Rightarrow>
             close_double blk1 [0..<128]
               (release double_indirect_sector double_indirect_sector (st3, snd cs2)))
      else Some cs2)
   }"

text \<open>
  The result of \<^verbatim>\<open>inode_close\<close>: the inode while it stays open (\<open>None\<close> once it is
  freed), the state, and the sectors released.
\<close>

definition inode_close ::
  "fs \<Rightarrow> inode \<Rightarrow> (inode option \<times> fs \<times> disk_sector_t list) option" where
  "inode_close st inode =
     (let inode' = inode\<lparr>open_cnt := open_cnt inode - 1\<rparr> in
      if open_cnt inode' = 0 then
        (if removed inode' then map_option (\<lambda>(st', log). (None, st', log)) (close_blocks st inode')
         else Some (None, st, []))
      else Some (Some inode', st, []))"

text \<open>
  The loop of \<^verbatim>\<open>inode_read_at\<close>; \<open>buf\<close> holds the \<open>bytes_read\<close> bytes copied so far.
\<close>

function inode_read_loop ::
  "inode \<Rightarrow> fs \<Rightarrow> int \<Rightarrow> int \<Rightarrow> byte list \<Rightarrow> int \<Rightarrow> (int \<times> byte list \<times> fs) option" where
  "inode_read_loop inode st sz offset buf bytes_read =
     (if 0 < sz then
        (case byte_to_sector st inode offset of
           None \<Rightarrow> None
         | Some (sector_idx, st1) \<Rightarrow>
             (case inode_length st1 inode of
                None \<Rightarrow> None
              | Some (len, st2) \<Rightarrow>
                  let sector_ofs = c_mod offset (int DISK_SECTOR_SIZE);
                      inode_left = len - offset;
                      sector_left = int DISK_SECTOR_SIZE - sector_ofs;
                      min_left = (if inode_left < sector_left then inode_left else sector_left);
                      chunk_size = (if sz < min_left then sz else min_left)
                  in if chunk_size \<le> 0 then Some (bytes_read, buf, st2)
                     else
                       (case cache_read st2 sector_idx sector_ofs (nat chunk_size) of
                          None \<Rightarrow> None
                        | Some (bs, st3) \<Rightarrow>
                            inode_read_loop inode st3 (sz - chunk_size) (offset + chunk_size)
                              (buf @ bs) (bytes_read + chunk_size))))
      else Some (bytes_read, buf, st))"
  by pat_completeness auto
termination
  by (relation "measure (\<lambda>(inode, st, sz, offset, buf, bytes_read). nat sz)") auto

declare inode_read_loop.simps [simp del]

definition inode_read_at ::
  "fs \<Rightarrow> inode \<Rightarrow> int \<Rightarrow> int \<Rightarrow> (int \<times> byte list \<times> fs) option" where
  "inode_read_at st inode sz offset = inode_read_loop inode st sz offset [] 0"

text \<open>
  The loop of \<^verbatim>\<open>inode_write_at\<close>; \<open>len\<close> is the local \<^verbatim>\<open>length\<close>, and
  \<^verbatim>\<open>buffer + bytes_written\<close> is the rest of the buffer.
\<close>

function inode_write_loop ::
  "inode \<Rightarrow> int \<Rightarrow> fs \<Rightarrow> byte list \<Rightarrow> int \<Rightarrow> int \<Rightarrow> int \<Rightarrow> (int \<times> fs) option" where
  "inode_write_loop inode len st buffer sz offset bytes_written =
     (if 0 < sz then
        (case byte_to_sector st inode offset of
           None \<Rightarrow> None
         | Some (sector_idx, st1) \<Rightarrow>
             let sector_ofs = c_mod offset (int DISK_SECTOR_SIZE);
                 inode_left = len - offset;
                 sector_left = int DISK_SECTOR_SIZE - sector_ofs;
                 min_left = (if inode_left < sector_left then inode_left else sector_left);
                 chunk_size = (if sz < min_left then sz else min_left)
             in if chunk_size \<le> 0 then Some (bytes_written, st1)
                else
                  (case cache_write st1 sector_idx (drop (nat bytes_written) buffer) sector_ofs
                          (nat chunk_size) of
                     None \<Rightarrow> None
                   | Some st2 \<Rightarrow>
                       inode_write_loop inode len st2 buffer (sz - chunk_size) (offset + chunk_size)
                         (bytes_written + chunk_size)))
      else Some (bytes_written, st))"
  by pat_completeness auto
termination
  by (relation "measure (\<lambda>(inode, len, st, buffer, sz, offset, bytes_written). nat sz)") auto

declare inode_write_loop.simps [simp del]

text \<open>\<^verbatim>\<open>size + offset\<close> beyond \<^verbatim>\<open>INT_MAX\<close> is a signed overflow.\<close>

definition inode_write_at ::
  "fs \<Rightarrow> inode \<Rightarrow> byte list \<Rightarrow> int \<Rightarrow> int \<Rightarrow> (int \<times> fs) option" where
  "inode_write_at st inode buffer sz offset =
     (if deny_write_cnt inode \<noteq> 0 then Some (0, st)
      else if 2 ^ 31 \<le> sz + offset \<or> sz + offset < - (2 ^ 31) then None
      else do {
        (len0, st1) \<leftarrow> inode_length st inode;
        let len = (if len0 < sz + offset then sz + offset else len0);
        st2 \<leftarrow> cache_write st1 (isector inode) (bytes_of_word (word_of_int len)) 0 4;
        inode_write_loop inode len st2 buffer sz offset 0
      })"

section \<open>The facade (\<^verbatim>\<open>filesys.c\<close>, the first unnamed part)\<close>


section \<open>The cache is bounded and evicts its tail\<close>

definition cache_inv :: "fs \<Rightarrow> bool" where
  "cache_inv st \<longleftrightarrow> cache_count st = int (length (caches st)) \<and> cache_count st \<le> CACHE_MAX"

definition zero_sector :: "byte list" where
  "zero_sector = replicate DISK_SECTOR_SIZE 0"

text \<open>
  A full cache: sector 0 written first, so that its dirty slot is the tail, then the
  sectors 1 to \<open>k\<close> created.
\<close>

definition filled_cache :: "nat \<Rightarrow> fs" where
  "filled_cache k =
     \<lparr>caches = map (\<lambda>i. \<lparr>sector = word_of_nat i, dirty = False, data = zero_sector\<rparr>) (rev [1..<Suc k])
                @ [\<lparr>sector = 0, dirty = True, data = replicate DISK_SECTOR_SIZE 1\<rparr>],
      cache_count = 1 + int k, disk = (\<lambda>_. zero_sector), free_map = []\<rparr>"

lemma word_of_bytes_of_word: "word_of_bytes (bytes_of_word w) = w"
proof -
  define a where "a = unat w"
  define b where "b = a div 256"
  define c where "c = b div 256"
  define d where "d = c div 256"
  have "a < 2 ^ 32" unfolding a_def using unsigned_less [of w] by simp
  then have d: "d < 256" unfolding d_def c_def b_def by simp
  have e: "a div 65536 = c" "a div 16777216 = d" "a div 256 = b"
    unfolding d_def c_def b_def by (simp_all add: div_mult2_eq)
  have "a = a mod 256 + 256 * b" "b = b mod 256 + 256 * c" "c = c mod 256 + 256 * d"
    unfolding d_def c_def b_def by simp_all
  then have "a mod 256 + 256 * (b mod 256 + 256 * (c mod 256 + 256 * (d mod 256))) = a"
    using d by simp
  then show ?thesis
    unfolding word_of_bytes_def bytes_of_word_def
    by (simp add: upt_rec unat_of_nat e flip: a_def) (simp add: a_def)
qed

lemma cache_save_fields [simp]:
  "caches (cache_save c st) = caches st" "cache_count (cache_save c st) = cache_count st"
  "free_map (cache_save c st) = free_map st"
  by (simp_all add: cache_save_def)

lemma fold_cache_save_fields:
  "caches (fold cache_save cs st) = caches st \<and> cache_count (fold cache_save cs st) = cache_count st
   \<and> free_map (fold cache_save cs st) = free_map st"
  by (induction cs arbitrary: st) simp_all

lemma cache_save_all_fields [simp]:
  "caches (cache_save_all st) = caches st" "cache_count (cache_save_all st) = cache_count st"
  "free_map (cache_save_all st) = free_map st"
  by (simp_all add: cache_save_all_def fold_cache_save_fields)

lemma cache_index_Some: "cache_index s cs = Some i \<Longrightarrow> i < length cs \<and> sector (cs ! i) = s"
  by (induction cs arbitrary: i) (auto split: if_splits)

lemma cache_index_None: "cache_index s cs = None \<longleftrightarrow> s \<notin> sector ` set cs"
  by (induction cs) auto

lemma length_list_remove: "i < length xs \<Longrightarrow> length (list_remove i xs) = length xs - 1"
  by (simp add: list_remove_def) 

lemma cache_inv_evict:
  assumes "cache_inv st" "cache_evict st = Some st'"
  shows "cache_count st' = int (length (caches st'))" "cache_count st' < CACHE_MAX"
proof -
  from assms(2) have ne: "caches st \<noteq> []" and
    st': "st' = cache_save (last (caches st))
             (st\<lparr>caches := butlast (caches st), cache_count := cache_count st - 1\<rparr>)"
    by (simp_all add: cache_evict_def split: if_splits)
  from ne have "length (caches st) \<ge> 1" by (cases "caches st") simp_all
  with assms(1) show "cache_count st' = int (length (caches st'))" "cache_count st' < CACHE_MAX"
    by (simp_all add: st' cache_inv_def)
qed

lemma cache_inv_make:
  assumes "cache_inv st" "cache_make st s rd = Some st'"
  shows "cache_inv st'"
proof (cases "cache_count st = CACHE_MAX")
  case True
  with assms(2) obtain st1 where ev: "cache_evict st = Some st1"
    and st': "st' = st1\<lparr>caches := \<lparr>sector = s, dirty = False,
              data = (if rd then disk st1 s else replicate DISK_SECTOR_SIZE 0)\<rparr> # caches st1,
              cache_count := cache_count st1 + 1\<rparr>"
    by (auto simp: cache_make_def Let_def split: Option.bind_splits)
  from cache_inv_evict [OF assms(1) ev] show ?thesis
    by (simp add: st' cache_inv_def)
next
  case False
  with assms show ?thesis
    by (auto simp: cache_make_def Let_def cache_inv_def)
qed

lemma cache_inv_lookup:
  assumes "cache_inv st" "cache_lookup st s mk = Some (p, st')"
  shows "cache_inv st'" "p = Some i \<Longrightarrow> i < length (caches st')"
proof -
  show "cache_inv st'"
  proof (cases "cache_index s (caches st)")
    case None
    with assms show ?thesis
      by (cases mk) (auto simp: cache_lookup_def dest: cache_inv_make)
  next
    case (Some j)
    with assms show ?thesis by (simp add: cache_lookup_def)
  qed
  show "i < length (caches st')" if "p = Some i"
  proof (cases "cache_index s (caches st)")
    case None
    with assms that show ?thesis
      by (cases mk) (auto simp: cache_lookup_def cache_make_def Let_def split: Option.bind_splits)
  next
    case (Some j)
    with assms that show ?thesis by (auto simp: cache_lookup_def dest: cache_index_Some)
  qed
qed

lemma cache_inv_move:
  assumes "cache_inv st" "i < length (caches st)"
  shows "cache_inv (st\<lparr>caches := c # list_remove i (caches st)\<rparr>)"
  using assms by (simp add: cache_inv_def length_list_remove)

lemma cache_inv_write:
  assumes "cache_inv st" "cache_write st s buf off n = Some st'"
  shows "cache_inv st'"
proof (cases "n = 0")
  case True
  with assms show ?thesis by (simp add: cache_write_def split: if_splits)
next
  case False
  with assms(2) obtain i st1 where lk: "cache_lookup st s True = Some (Some i, st1)"
    and st': "st' = st1\<lparr>caches := (caches st1 ! i)\<lparr>data := patch (data (caches st1 ! i)) (nat off) (take n buf),
                   dirty := True\<rparr> # list_remove i (caches st1)\<rparr>"
    by (auto simp: cache_write_def Let_def split: if_splits Option.bind_splits)
  from cache_inv_lookup [OF assms(1) lk] show ?thesis
    unfolding st' by (intro cache_inv_move) simp_all
qed

lemma cache_inv_read:
  assumes "cache_inv st" "cache_read st s off n = Some (bs, st')"
  shows "cache_inv st'"
proof (cases "n = 0")
  case True
  with assms show ?thesis by (simp add: cache_read_def split: if_splits)
next
  case False
  with assms(2) obtain i st1 where lk: "cache_lookup st s True = Some (Some i, st1)"
    and st': "st' = st1\<lparr>caches := (caches st1 ! i) # list_remove i (caches st1)\<rparr>"
    by (auto simp: cache_read_def Let_def split: if_splits Option.bind_splits)
  from cache_inv_lookup [OF assms(1) lk] show ?thesis
    unfolding st' by (intro cache_inv_move) simp_all
qed

lemma cache_inv_remove: "cache_inv st \<Longrightarrow> cache_inv (cache_remove st s)"
proof (cases "cache_index s (caches st)")
  case None
  assume "cache_inv st"
  with None show ?thesis by (simp add: cache_remove_def)
next
  case (Some i)
  assume "cache_inv st"
  with Some cache_index_Some [OF Some] show ?thesis
    by (simp add: cache_remove_def cache_inv_def length_list_remove)
qed

lemma cache_reachable_inv: "cache_reachable st \<Longrightarrow> cache_inv st"
proof (induction rule: cache_reachable.induct)
  case (reach_init st)
  show ?case by (simp add: cache_inv_def cache_init_def CACHE_MAX_def)
next
  case (reach_backup st)
  then show ?case by (simp add: cache_inv_def cache_backup_def)
next
  case (reach_create st s st')
  then show ?case by (auto simp: cache_create_def dest: cache_inv_make)
next
  case (reach_write st s buf off n st')
  then show ?case by (auto dest: cache_inv_write)
next
  case (reach_read st s off n bs st')
  then show ?case by (auto dest: cache_inv_read)
next
  case (reach_remove st s)
  then show ?case by (auto dest: cache_inv_remove)
qed

lemma cache_make_full:
  assumes "cache_count st = CACHE_MAX" "caches st \<noteq> []"
  shows "cache_make st s rd =
     Some (st\<lparr>caches := \<lparr>sector = s, dirty = False,
                 data = (if rd then disk (cache_save (last (caches st)) st) s
                         else replicate DISK_SECTOR_SIZE 0)\<rparr> # butlast (caches st),
               disk := disk (cache_save (last (caches st)) st)\<rparr>)"
  using assms by (simp add: cache_make_def cache_evict_def cache_save_def Let_def)

lemma disk_cache_save:
  "disk (cache_save c st) s = (if dirty c \<and> sector c = s then data c else disk st s)"
  by (simp add: cache_save_def)

lemma disk_fold_cache_save:
  "disk (fold cache_save cs st) s =
     (case find (\<lambda>c. dirty c \<and> sector c = s) (rev cs) of Some c \<Rightarrow> data c | None \<Rightarrow> disk st s)"
proof (induction cs arbitrary: st rule: rev_induct)
  case Nil
  show ?case by simp
next
  case (snoc c cs)
  show ?case by (simp add: snoc.IH disk_cache_save)
qed

lemma cache_save_all_twice: "disk (cache_save_all (cache_save_all st)) = disk (cache_save_all st)"
proof
  fix s
  show "disk (cache_save_all (cache_save_all st)) s = disk (cache_save_all st) s"
    unfolding cache_save_all_def fold_cache_save_fields [THEN conjunct1]
    by (simp add: disk_fold_cache_save split: option.splits)
qed

lemma filled_cache_0: "cache_reachable (filled_cache 0)"
proof -
  let ?st0 = "cache_init \<lparr>caches = [], cache_count = 0, disk = (\<lambda>_. zero_sector), free_map = []\<rparr>"
  have "cache_write ?st0 0 (replicate DISK_SECTOR_SIZE 1) 0 DISK_SECTOR_SIZE = Some (filled_cache 0)"
    by (simp add: cache_write_def cache_lookup_def cache_make_def cache_init_def CACHE_MAX_def
        filled_cache_def patch_def list_remove_def zero_sector_def DISK_SECTOR_SIZE_def)
  with reach_init [of "\<lparr>caches = [], cache_count = 0, disk = (\<lambda>_. zero_sector), free_map = []\<rparr>"]
  show ?thesis by (rule reach_write)
qed

lemma filled_cache_Suc:
  assumes "k < 63"
  shows "cache_create (filled_cache k) (word_of_nat (Suc k)) = Some (filled_cache (Suc k))"
  using assms by (simp add: cache_create_def cache_make_def filled_cache_def CACHE_MAX_def zero_sector_def)

lemma filled_cache_reachable: "k \<le> 63 \<Longrightarrow> cache_reachable (filled_cache k)"
proof (induction k)
  case 0
  show ?case by (rule filled_cache_0)
next
  case (Suc k)
  then have "cache_reachable (filled_cache k)" "k < 63" by simp_all
  then show ?case by (rule reach_create [OF _ filled_cache_Suc])
qed

text \<open>
  C7. In every reachable cache state the number of slots is at most \<open>CACHE_MAX = 64\<close> (and
  \<^verbatim>\<open>cache_count\<close> is that number); when a slot is made while the count is 64, the new
  slot is pushed in front of the old list without its tail, and the disk changes exactly
  by the write of the tail's data to the tail's sector when the tail is dirty, and not at
  all when it is clean.
\<close>

theorem C7_cache_bounded_lru_eviction:
  "cache_reachable st \<Longrightarrow>
     int (length (caches st)) \<le> CACHE_MAX \<and> cache_count st = int (length (caches st)) \<and>
     (cache_count st = CACHE_MAX \<longrightarrow>
        cache_make st s rd =
          Some (st\<lparr>caches := \<lparr>sector = s, dirty = False,
                      data = (if rd then disk (cache_save (last (caches st)) st) s
                              else replicate DISK_SECTOR_SIZE 0)\<rparr> # butlast (caches st),
                    disk := (if dirty (last (caches st))
                             then (disk st)(sector (last (caches st)) := data (last (caches st)))
                             else disk st)\<rparr>))"
proof -
  assume "cache_reachable st"
  from cache_reachable_inv [OF this]
  have inv: "cache_count st = int (length (caches st))" "cache_count st \<le> CACHE_MAX"
    by (simp_all add: cache_inv_def)
  have "cache_make st s rd =
          Some (st\<lparr>caches := \<lparr>sector = s, dirty = False,
                      data = (if rd then disk (cache_save (last (caches st)) st) s
                              else replicate DISK_SECTOR_SIZE 0)\<rparr> # butlast (caches st),
                    disk := (if dirty (last (caches st))
                             then (disk st)(sector (last (caches st)) := data (last (caches st)))
                             else disk st)\<rparr>)"
    if full: "cache_count st = CACHE_MAX"
  proof -
    from full inv have "caches st \<noteq> []" by (auto simp: CACHE_MAX_def)
    from cache_make_full [OF full this] show ?thesis by (simp add: cache_save_def)
  qed
  with inv show ?thesis by simp
qed

theorem C7_witness:
  "cache_reachable (filled_cache 63) \<and> cache_count (filled_cache 63) = CACHE_MAX \<and>
   int (length (caches (filled_cache 63))) \<le> CACHE_MAX \<and>
   map_option (\<lambda>st'. (length (caches st'), sector (hd (caches st')), disk st' 0))
       (cache_make (filled_cache 63) 100 True)
     = Some (64, 100, replicate DISK_SECTOR_SIZE 1)"
proof -
  have r: "cache_reachable (filled_cache 63)" by (rule filled_cache_reachable) simp
  have c: "cache_count (filled_cache 63) = CACHE_MAX" by (simp add: filled_cache_def CACHE_MAX_def)
  have l: "last (caches (filled_cache 63)) = \<lparr>sector = 0, dirty = True, data = replicate DISK_SECTOR_SIZE 1\<rparr>"
    by (simp add: filled_cache_def)
  from C7_cache_bounded_lru_eviction [OF r, of 100 True] c show ?thesis
    using r by (simp add: l) (simp add: filled_cache_def)
qed

text \<open>
  C8. For every cache state, the disk after two calls of \<^verbatim>\<open>cache_backup\<close> in a row is
  the disk after the first.
\<close>

theorem C8_backup_idempotent:
  "disk (cache_backup (cache_backup st)) = disk (cache_backup st)"
  by (simp add: cache_backup_def cache_save_all_twice)

section \<open>Open handles: the deny-write counter\<close>

text \<open>
  The calling discipline of \<^verbatim>\<open>inode_deny_write\<close> and \<^verbatim>\<open>inode_allow_write\<close> (the comments
  of \<^verbatim>\<open>src/inode.c\<close>: deny "may be called at most once per inode opener", allow "must be
  called once by each inode opener who has called \<^verbatim>\<open>inode_deny_write\<close> on the inode,
  before closing the inode") speaks of openers, which the inode does not record. The
  list \<open>os\<close> has one flag per opener of the inode: whether that opener denies writes now.
  \<open>disciplined inode os\<close> holds of the inodes that a run of the operations reaches when
  every opener keeps to the discipline, while the inode is open.
\<close>

inductive disciplined :: "inode \<Rightarrow> bool list \<Rightarrow> bool" where
  disc_open: "disciplined (inode_open_new s) [False]"
| disc_reopen:
    "disciplined inode os \<Longrightarrow> inode_reopen inode = Some inode' \<Longrightarrow> disciplined inode' (False # os)"
| disc_remove:
    "disciplined inode os \<Longrightarrow> disciplined (inode_remove inode) os"
| disc_deny:
    "disciplined inode os \<Longrightarrow> k < length os \<Longrightarrow> \<not> os ! k \<Longrightarrow>
       inode_deny_write inode = Some inode' \<Longrightarrow> disciplined inode' (os[k := True])"
| disc_allow:
    "disciplined inode os \<Longrightarrow> k < length os \<Longrightarrow> os ! k \<Longrightarrow>
       inode_allow_write inode = Some inode' \<Longrightarrow> disciplined inode' (os[k := False])"
| disc_close:
    "disciplined inode os \<Longrightarrow> k < length os \<Longrightarrow> \<not> os ! k \<Longrightarrow>
       inode_close st inode = Some (Some inode', st', log) \<Longrightarrow> disciplined inode' (list_remove k os)"

definition denying :: "bool list \<Rightarrow> nat" where
  "denying os = length (filter (\<lambda>b. b) os)"

lemma denying_le: "denying os \<le> length os"
  by (simp add: denying_def)

lemma denying_split:
  assumes "k < length os"
  shows "denying os = denying (take k os) + (if os ! k then 1 else 0) + denying (drop (Suc k) os)"
proof -
  have "os = take k os @ os ! k # drop (Suc k) os"
    using assms by (simp add: id_take_nth_drop)
  then have "denying os = denying (take k os @ os ! k # drop (Suc k) os)" by simp
  then show ?thesis by (simp add: denying_def)
qed

lemma denying_update:
  assumes "k < length os"
  shows "denying (os[k := b]) = denying (take k os) + (if b then 1 else 0) + denying (drop (Suc k) os)"
  using assms by (simp add: upd_conv_take_nth_drop denying_def)

lemma denying_list_remove:
  "denying (list_remove k os) = denying (take k os) + denying (drop (Suc k) os)"
  by (simp add: list_remove_def denying_def)

lemma inode_close_open:
  assumes "inode_close st inode = Some (Some inode', st', log)"
  shows "inode' = inode\<lparr>open_cnt := open_cnt inode - 1\<rparr>" "open_cnt inode \<noteq> 1"
  using assms by (auto simp: inode_close_def Let_def split: if_splits)

lemma disciplined_counts:
  "disciplined inode os \<Longrightarrow>
     open_cnt inode = int (length os) \<and> deny_write_cnt inode = int (denying os)"
proof (induction rule: disciplined.induct)
  case (disc_open s)
  show ?case by (simp add: inode_open_new_def denying_def)
next
  case (disc_reopen inode os inode')
  then show ?case by (auto simp: inode_reopen_def denying_def split: if_splits)
next
  case (disc_remove inode os)
  then show ?case by (simp add: inode_remove_def)
next
  case (disc_deny inode os k inode')
  from disc_deny.hyps(4) have "inode' = inode\<lparr>deny_write_cnt := deny_write_cnt inode + 1\<rparr>"
    by (simp add: inode_deny_write_def Let_def split: if_splits)
  with disc_deny.IH disc_deny.hyps(2,3) show ?case
    by (simp add: denying_update denying_split [of k os])
next
  case (disc_allow inode os k inode')
  from disc_allow.hyps(4) have "inode' = inode\<lparr>deny_write_cnt := deny_write_cnt inode - 1\<rparr>"
    by (simp add: inode_allow_write_def split: if_splits)
  with disc_allow.IH disc_allow.hyps(2,3) show ?case
    by (simp add: denying_update denying_split [of k os])
next
  case (disc_close inode os k st inode' st' log)
  from inode_close_open(1) [OF disc_close.hyps(4)] disc_close.IH disc_close.hyps(2,3) show ?case
    by (simp add: denying_list_remove denying_split [of k os] length_list_remove)
qed

text \<open>Under the discipline the assertions of deny and allow hold: neither panics.\<close>

lemma disciplined_deny_returns:
  assumes "disciplined inode os" "k < length os" "\<not> os ! k"
  shows "inode_deny_write inode = Some (inode\<lparr>deny_write_cnt := deny_write_cnt inode + 1\<rparr>)"
proof -
  have "denying (take k os) \<le> k" "denying (drop (Suc k) os) \<le> length os - Suc k"
    using denying_le [of "take k os"] denying_le [of "drop (Suc k) os"] assms(2) by simp_all
  with assms(2,3) have "denying os < length os" by (simp add: denying_split [of k os])
  with disciplined_counts [OF assms(1)] show ?thesis
    by (simp add: inode_deny_write_def Let_def)
qed

lemma disciplined_allow_returns:
  assumes "disciplined inode os" "k < length os" "os ! k"
  shows "inode_allow_write inode = Some (inode\<lparr>deny_write_cnt := deny_write_cnt inode - 1\<rparr>)"
proof -
  from assms(2,3) have "0 < denying os" by (simp add: denying_split [of k os])
  with disciplined_counts [OF assms(1)] denying_le [of os] show ?thesis
    by (simp add: inode_allow_write_def)
qed

text \<open>
  C9. For every inode and every run of open, reopen, remove, close, deny_write and
  allow_write in which the openers keep to the calling discipline, at every step where
  the inode is still open \<open>0 \<le> deny_write_cnt \<le> open_cnt\<close>.
\<close>

theorem C9_deny_write_invariant:
  "disciplined inode os \<Longrightarrow> 0 \<le> deny_write_cnt inode \<and> deny_write_cnt inode \<le> open_cnt inode"
  using disciplined_counts [of inode os] denying_le [of os] by simp

theorem C9_witness:
  "disciplined \<lparr>isector = 7, open_cnt = 2, removed = False, deny_write_cnt = 1\<rparr> [True, False] \<and>
   0 \<le> deny_write_cnt \<lparr>isector = 7, open_cnt = 2, removed = False, deny_write_cnt = 1\<rparr> \<and>
   deny_write_cnt \<lparr>isector = 7, open_cnt = 2, removed = False, deny_write_cnt = 1\<rparr>
     \<le> open_cnt \<lparr>isector = 7, open_cnt = 2, removed = False, deny_write_cnt = 1\<rparr>"
proof -
  have "disciplined \<lparr>isector = 7, open_cnt = 2, removed = False, deny_write_cnt = 0\<rparr> [False, False]"
    using disc_reopen [OF disc_open [of 7]] by (simp add: inode_reopen_def inode_open_new_def)
  from disc_deny [OF this, of 0] 
  have d: "disciplined \<lparr>isector = 7, open_cnt = 2, removed = False, deny_write_cnt = 1\<rparr> [True, False]"
    by (simp add: inode_deny_write_def)
  from C9_deny_write_invariant [OF d] d show ?thesis by simp
qed

section \<open>What the cache shows of a sector\<close>

text \<open>
  \<open>cache_view st s\<close> is the contents of sector \<open>s\<close> as \<^verbatim>\<open>cache_read\<close> finds them: the data of
  the first slot for \<open>s\<close>, or the disk's when there is none.
\<close>

definition cache_view :: "fs \<Rightarrow> disk_sector_t \<Rightarrow> byte list" where
  "cache_view st s =
     (case find (\<lambda>c. sector c = s) (caches st) of Some c \<Rightarrow> data c | None \<Rightarrow> disk st s)"

definition cached :: "fs \<Rightarrow> disk_sector_t set" where
  "cached st = sector ` set (caches st)"

text \<open>
  \<^verbatim>\<open>cache_create\<close> makes a zeroed slot that is not dirty: evicted before a write, its
  zeros are lost. \<open>X\<close> holds the sectors whose slot may be in that state; every other slot
  is dirty or equal to the disk.
\<close>

definition cache_ok :: "disk_sector_t set \<Rightarrow> fs \<Rightarrow> bool" where
  "cache_ok X st \<longleftrightarrow>
     cache_inv st \<and> distinct (map sector (caches st)) \<and>
     (\<forall>c \<in> set (caches st). length (data c) = DISK_SECTOR_SIZE \<and>
         (dirty c \<or> data c = disk st (sector c) \<or> sector c \<in> X)) \<and>
     (\<forall>s. length (disk st s) = DISK_SECTOR_SIZE)"

lemma cache_index_find:
  "cache_index s cs = Some i \<Longrightarrow> find (\<lambda>c. sector c = s) cs = Some (cs ! i)"
  by (induction cs arbitrary: i) (auto split: if_splits)

lemma find_sector_None: "find (\<lambda>c. sector c = s) cs = None \<longleftrightarrow> s \<notin> sector ` set cs"
  by (induction cs) auto

lemma find_sector_Some: "find (\<lambda>c. sector c = s) cs = Some c \<Longrightarrow> c \<in> set cs \<and> sector c = s"
  by (induction cs) (auto split: if_splits)

lemma find_distinct:
  "distinct (map sector cs) \<Longrightarrow> c \<in> set cs \<Longrightarrow> find (\<lambda>c'. sector c' = sector c) cs = Some c"
  by (induction cs) (auto simp: image_iff)

lemma set_list_remove:
  "i < length cs \<Longrightarrow> distinct cs \<Longrightarrow> set (list_remove i cs) = set cs - {cs ! i}"
proof -
  assume a: "i < length cs" "distinct cs"
  then have "cs = take i cs @ cs ! i # drop (Suc i) cs" by (simp add: id_take_nth_drop)
  then have "distinct (take i cs @ cs ! i # drop (Suc i) cs)"
    and "set cs = set (take i cs @ cs ! i # drop (Suc i) cs)" using a(2) by simp_all
  then show ?thesis by (auto simp: list_remove_def)
qed

lemma set_list_remove_subset: "set (list_remove i cs) \<subseteq> set cs"
  by (auto simp: list_remove_def dest: in_set_takeD in_set_dropD)

lemma list_remove_Cons:
  "list_remove 0 (x # xs) = xs" "list_remove (Suc j) (x # xs) = x # list_remove j xs"
  by (simp_all add: list_remove_def)

lemma map_list_remove: "map f (list_remove i cs) = list_remove i (map f cs)"
  by (simp add: list_remove_def take_map drop_map)

lemma distinct_list_remove: "distinct xs \<Longrightarrow> distinct (list_remove i xs)"
proof (induction xs arbitrary: i)
  case Nil
  then show ?case by (simp add: list_remove_def)
next
  case (Cons x xs)
  show ?case
  proof (cases i)
    case 0
    with Cons.prems show ?thesis by (simp add: list_remove_Cons)
  next
    case (Suc j)
    with Cons.prems Cons.IH [of j] set_list_remove_subset [of j xs] show ?thesis
      by (auto simp: list_remove_Cons)
  qed
qed

lemma distinct_map_list_remove:
  "distinct (map f cs) \<Longrightarrow> distinct (map f (list_remove i cs))"
  by (simp add: map_list_remove distinct_list_remove)

lemma sectors_list_remove:
  assumes "distinct (map sector cs)" "i < length cs"
  shows "sector ` set (list_remove i cs) = sector ` set cs - {sector (cs ! i)}"
proof -
  have "map sector (list_remove i cs) = list_remove i (map sector cs)"
    by (rule map_list_remove)
  then have "set (map sector (list_remove i cs)) = set (map sector cs) - {map sector cs ! i}"
    using set_list_remove [of i "map sector cs"] assms by simp
  with assms(2) show ?thesis by simp
qed

lemma find_list_remove:
  assumes "i < length cs" "sector (cs ! i) \<noteq> s"
  shows "find (\<lambda>c. sector c = s) (list_remove i cs) = find (\<lambda>c. sector c = s) cs"
  using assms
proof (induction cs arbitrary: i)
  case Nil
  then show ?case by simp
next
  case (Cons c cs)
  show ?case
  proof (cases i)
    case 0
    with Cons.prems show ?thesis by (simp add: list_remove_def)
  next
    case (Suc j)
    with Cons.prems Cons.IH [of j] show ?thesis by (simp add: list_remove_def)
  qed
qed

lemma cache_ok_mono: "cache_ok X st \<Longrightarrow> X \<subseteq> Y \<Longrightarrow> cache_ok Y st"
  unfolding cache_ok_def by blast

lemma cache_view_cached:
  "c \<in> set (caches st) \<Longrightarrow> distinct (map sector (caches st)) \<Longrightarrow> cache_view st (sector c) = data c"
  by (simp add: cache_view_def find_distinct)

lemma cache_view_uncached: "s \<notin> cached st \<Longrightarrow> cache_view st s = disk st s"
  using find_sector_None [of s "caches st"] by (simp add: cache_view_def cached_def)

lemma length_cache_view: "cache_ok X st \<Longrightarrow> length (cache_view st s) = DISK_SECTOR_SIZE"
  unfolding cache_ok_def cache_view_def
  by (auto split: option.splits dest!: find_sector_Some)

lemma find_butlast:
  assumes "s \<in> sector ` set cs"
  shows "find (\<lambda>c. sector c = s) (cs @ [c]) = find (\<lambda>c. sector c = s) cs"
  using assms by (induction cs) auto

lemma cache_evict_ok:
  assumes ok: "cache_ok X st" and full: "cache_count st = CACHE_MAX"
  obtains st' where "cache_evict st = Some st'" "cache_ok X st'" "cache_count st' < CACHE_MAX"
    "free_map st' = free_map st" "cached st' \<subseteq> cached st"
    "\<And>s. s \<notin> X \<or> s \<in> cached st' \<Longrightarrow> cache_view st' s = cache_view st s"
    "\<And>s. s \<notin> cached st \<Longrightarrow> disk st' s = disk st s"
proof -
  from ok have inv: "cache_count st = int (length (caches st))" 
    and dist: "distinct (map sector (caches st))"
    and slots: "\<And>c. c \<in> set (caches st) \<Longrightarrow> length (data c) = DISK_SECTOR_SIZE \<and>
         (dirty c \<or> data c = disk st (sector c) \<or> sector c \<in> X)"
    and dlen: "\<And>s. length (disk st s) = DISK_SECTOR_SIZE"
    by (auto simp: cache_ok_def cache_inv_def)
  from inv full have ne: "caches st \<noteq> []" by (auto simp: CACHE_MAX_def)
  define c where "c = last (caches st)"
  define bl where "bl = butlast (caches st)"
  have cs: "caches st = bl @ [c]" using ne by (simp add: c_def bl_def)
  define st' where "st' = cache_save c (st\<lparr>caches := bl, cache_count := cache_count st - 1\<rparr>)"
  have ev: "cache_evict st = Some st'" using ne by (simp add: cache_evict_def st'_def c_def bl_def)
  have c': "caches st' = bl" "cache_count st' = cache_count st - 1" "free_map st' = free_map st"
    by (simp_all add: st'_def)
  have d': "disk st' = (if dirty c then (disk st)(sector c := data c) else disk st)"
    by (simp add: st'_def cache_save_def)
  from dist cs have cnotin: "sector c \<notin> sector ` set bl" and dbl: "distinct (map sector bl)" by auto
  have cin: "c \<in> set (caches st)" using cs by simp
  have ok': "cache_ok X st'"
    unfolding cache_ok_def cache_inv_def
  proof (intro conjI ballI allI)
    show "cache_count st' = int (length (caches st'))" using inv cs by (simp add: c')
    show "cache_count st' \<le> CACHE_MAX" using full by (simp add: c')
    show "distinct (map sector (caches st'))" using dbl by (simp add: c')
  next
    fix c0 assume "c0 \<in> set (caches st')"
    then have in_bl: "c0 \<in> set bl" by (simp add: c')
    then have "c0 \<in> set (caches st)" by (simp add: cs)
    from slots [OF this] show "length (data c0) = DISK_SECTOR_SIZE" by simp
    from in_bl cnotin have "sector c0 \<noteq> sector c" by (metis imageI)
    then have "disk st' (sector c0) = disk st (sector c0)" by (simp add: d')
    with slots [OF \<open>c0 \<in> set (caches st)\<close>]
    show "dirty c0 \<or> data c0 = disk st' (sector c0) \<or> sector c0 \<in> X" by simp
  next
    fix s show "length (disk st' s) = DISK_SECTOR_SIZE"
      using dlen slots [OF cin] by (simp add: d')
  qed
  have sub: "cached st' \<subseteq> cached st" by (auto simp: cached_def c' cs)
  have view: "cache_view st' s = cache_view st s" if "s \<notin> X \<or> s \<in> cached st'" for s
  proof (cases "s \<in> cached st'")
    case True
    then have "s \<in> sector ` set bl" by (simp add: cached_def c')
    then show ?thesis
      using find_sector_None [of s bl]
      by (auto simp: cache_view_def c' cs find_butlast split: option.splits)
  next
    case False
    with that have nx: "s \<notin> X" by simp
    from False have v': "cache_view st' s = disk st' s" by (rule cache_view_uncached)
    show ?thesis
    proof (cases "s = sector c")
      case True
      have "cache_view st s = data c" using cache_view_cached [OF cin dist] True by simp
      moreover have "disk st' s = data c" using slots [OF cin] nx True by (auto simp: d')
      ultimately show ?thesis using v' by simp
    next
      case False
      with \<open>s \<notin> cached st'\<close> have "s \<notin> cached st" by (auto simp: cached_def c' cs)
      then have "cache_view st s = disk st s" by (rule cache_view_uncached)
      with False v' show ?thesis by (simp add: d')
    qed
  qed
  have dk: "disk st' s = disk st s" if "s \<notin> cached st" for s
  proof -
    from that cin have "s \<noteq> sector c" by (auto simp: cached_def)
    then show ?thesis by (simp add: d')
  qed
  from ev ok' full c' sub view dk show ?thesis by (intro that [of st']) simp_all
qed


lemma cache_view_Cons:
  "cache_view (st\<lparr>caches := c # cs\<rparr>) s =
     (if sector c = s then data c else cache_view (st\<lparr>caches := cs\<rparr>) s)"
  by (simp add: cache_view_def split: option.splits)

lemma cache_view_upd_count [simp]: "cache_view (st\<lparr>cache_count := k\<rparr>) = cache_view st"
  by (simp add: cache_view_def fun_eq_iff split: option.splits)

lemma cache_view_upd_free_map [simp]: "cache_view (st\<lparr>free_map := fm\<rparr>) = cache_view st"
  by (simp add: cache_view_def fun_eq_iff split: option.splits)

lemma cached_upd [simp]:
  "cached (st\<lparr>cache_count := k\<rparr>) = cached st" "cached (st\<lparr>free_map := fm\<rparr>) = cached st"
  "cached (st\<lparr>caches := cs\<rparr>) = sector ` set cs"
  by (simp_all add: cached_def)

lemma cache_ok_upd_free_map [simp]: "cache_ok X (st\<lparr>free_map := fm\<rparr>) = cache_ok X st"
  by (simp add: cache_ok_def cache_inv_def)

text \<open>Pushing a slot for a sector that has none.\<close>

lemma cache_push_ok:
  assumes ok: "cache_ok X st" and room: "cache_count st < CACHE_MAX" and new: "s \<notin> cached st"
    and len: "length d = DISK_SECTOR_SIZE" and coh: "d = disk st s \<or> s \<in> X"
  defines "st' \<equiv> st\<lparr>caches := \<lparr>sector = s, dirty = False, data = d\<rparr> # caches st,
                       cache_count := cache_count st + 1\<rparr>"
  shows "cache_ok X st'" "cached st' = insert s (cached st)" "cache_view st' s = d"
    "\<And>s'. s' \<noteq> s \<Longrightarrow> cache_view st' s' = cache_view st s'"
proof -
  show "cache_ok X st'"
    using ok room new len coh unfolding cache_ok_def cache_inv_def st'_def cached_def by auto
  show "cached st' = insert s (cached st)" by (simp add: st'_def cached_def)
  show "cache_view st' s = d" by (simp add: st'_def cache_view_def)
  show "cache_view st' s' = cache_view st s'" if "s' \<noteq> s" for s'
    using that by (simp add: st'_def cache_view_def split: option.splits)
qed

lemma cache_make_ok:
  assumes ok: "cache_ok X st" and new: "s \<notin> cached st"
  obtains st' where "cache_make st s rd = Some st'"
    "cache_ok (if rd then X else insert s X) st'"
    "free_map st' = free_map st" "cached st' \<subseteq> insert s (cached st)" "s \<in> cached st'"
    "cache_view st' s = (if rd then disk st s else zero_sector)"
    "\<And>s'. s' \<noteq> s \<Longrightarrow> s' \<notin> X \<or> s' \<in> cached st' \<Longrightarrow> cache_view st' s' = cache_view st s'"
proof -
  obtain st1 where ev: "(if cache_count st = CACHE_MAX then cache_evict st else Some st) = Some st1"
    and ok1: "cache_ok X st1" and room: "cache_count st1 < CACHE_MAX"
    and fm1: "free_map st1 = free_map st" and sub1: "cached st1 \<subseteq> cached st"
    and view1: "\<And>s. s \<notin> X \<or> s \<in> cached st1 \<Longrightarrow> cache_view st1 s = cache_view st s"
    and dk1: "\<And>s. s \<notin> cached st \<Longrightarrow> disk st1 s = disk st s"
  proof (cases "cache_count st = CACHE_MAX")
    case True
    from cache_evict_ok [OF ok True] True that show ?thesis by metis
  next
    case False
    with ok have "cache_count st < CACHE_MAX" by (simp add: cache_ok_def cache_inv_def)
    with False ok that [of st] show ?thesis by simp
  qed
  define d where "d = (if rd then disk st1 s else replicate DISK_SECTOR_SIZE 0)"
  define st' where "st' = st1\<lparr>caches := \<lparr>sector = s, dirty = False, data = d\<rparr> # caches st1,
                       cache_count := cache_count st1 + 1\<rparr>"
  have mk: "cache_make st s rd = Some st'"
    using ev by (simp add: cache_make_def st'_def d_def Let_def split: if_splits)
  let ?Y = "if rd then X else insert s X"
  have ok1': "cache_ok ?Y st1" using ok1 by (rule cache_ok_mono) auto
  from new sub1 have new1: "s \<notin> cached st1" by auto
  from ok1 have len: "length d = DISK_SECTOR_SIZE" by (simp add: d_def cache_ok_def)
  have coh: "d = disk st1 s \<or> s \<in> ?Y" by (simp add: d_def)
  note push = cache_push_ok [OF ok1' room new1 len coh, folded st'_def]
  have "cache_view st' s = (if rd then disk st s else zero_sector)"
    using push(3) dk1 [OF new] by (simp add: d_def zero_sector_def)
  moreover have "cache_view st' s' = cache_view st s'"
    if "s' \<noteq> s" "s' \<notin> X \<or> s' \<in> cached st'" for s'
  proof -
    from that push(2) have "s' \<notin> X \<or> s' \<in> cached st1" by auto
    from view1 [OF this] push(4) [OF that(1)] show ?thesis by simp
  qed
  moreover have "free_map st' = free_map st" by (simp add: st'_def fm1)
  moreover have "cached st' \<subseteq> insert s (cached st)" using push(2) sub1 by auto
  moreover have "s \<in> cached st'" using push(2) by simp
  ultimately show ?thesis using mk push(1) by (intro that [of st']) 
qed


text \<open>Moving slot \<open>i\<close> to the front, as \<open>c'\<close>.\<close>

lemma cache_front_ok:
  assumes ok: "cache_ok X st" and i: "i < length (caches st)"
    and sec: "sector c' = sector (caches st ! i)" and len: "length (data c') = DISK_SECTOR_SIZE"
    and coh: "dirty c' \<or> data c' = disk st (sector c') \<or> sector c' \<in> Y"
    and sub: "X - {sector c'} \<subseteq> Y"
  defines "st' \<equiv> st\<lparr>caches := c' # list_remove i (caches st)\<rparr>"
  shows "cache_ok Y st'" "cached st' = cached st" "cache_view st' (sector c') = data c'"
    "\<And>s'. s' \<noteq> sector c' \<Longrightarrow> cache_view st' s' = cache_view st s'"
proof -
  from ok have inv: "cache_inv st" and dist: "distinct (map sector (caches st))"
    and slots: "\<And>c. c \<in> set (caches st) \<Longrightarrow> length (data c) = DISK_SECTOR_SIZE \<and>
         (dirty c \<or> data c = disk st (sector c) \<or> sector c \<in> X)"
    and dlen: "\<And>s. length (disk st s) = DISK_SECTOR_SIZE"
    by (auto simp: cache_ok_def)
  let ?cs = "caches st" and ?s = "sector c'"
  have secs: "sector ` set (list_remove i ?cs) = sector ` set ?cs - {?s}"
    using sectors_list_remove [OF dist i] sec by simp
  have si: "?s \<in> sector ` set ?cs" using i sec by (metis imageI nth_mem)
  show cached': "cached st' = cached st" using secs si by (auto simp: st'_def cached_def)
  show "cache_ok Y st'"
    unfolding cache_ok_def
  proof (intro conjI ballI allI)
    show "cache_inv st'" using inv i by (simp add: st'_def cache_inv_move)
    show "distinct (map sector (caches st'))"
      using secs distinct_map_list_remove [OF dist, of i] by (simp add: st'_def)
  next
    fix c assume "c \<in> set (caches st')"
    then consider "c = c'" | "c \<in> set (list_remove i ?cs)" by (auto simp: st'_def)
    then show "length (data c) = DISK_SECTOR_SIZE"
    proof cases
      case 1 with len show ?thesis by simp
    next
      case 2 with set_list_remove_subset [of i ?cs] slots show ?thesis by blast
    qed
    from \<open>c \<in> set (caches st')\<close> consider "c = c'" | "c \<in> set (list_remove i ?cs)" by (auto simp: st'_def)
    then show "dirty c \<or> data c = disk st' (sector c) \<or> sector c \<in> Y"
    proof cases
      case 1 with coh show ?thesis by (simp add: st'_def)
    next
      case 2
      then have "sector c \<noteq> ?s" using secs by (metis DiffE imageI singletonI)
      moreover from 2 set_list_remove_subset [of i ?cs] have "c \<in> set ?cs" by blast
      ultimately show ?thesis using slots [of c] sub by (auto simp: st'_def)
    qed
  next
    fix s show "length (disk st' s) = DISK_SECTOR_SIZE" using dlen by (simp add: st'_def)
  qed
  show "cache_view st' ?s = data c'" by (simp add: st'_def cache_view_def)
  show "cache_view st' s' = cache_view st s'" if "s' \<noteq> ?s" for s'
    using that find_list_remove [OF i, of s'] sec
    by (simp add: st'_def cache_view_def split: option.splits)
qed

lemma cache_lookup_ok:
  assumes ok: "cache_ok X st"
  obtains i st' where "cache_lookup st s True = Some (Some i, st')"
    "i < length (caches st')" "sector (caches st' ! i) = s" "data (caches st' ! i) = cache_view st s"
    "cache_ok X st'" "free_map st' = free_map st" "cached st' \<subseteq> insert s (cached st)"
    "\<And>s'. s' \<notin> X \<or> s' \<in> cached st' \<Longrightarrow> cache_view st' s' = cache_view st s'"
    "s \<in> cached st \<Longrightarrow> st' = st"
proof (cases "cache_index s (caches st)")
  case None
  then have new: "s \<notin> cached st" by (simp add: cache_index_None cached_def)
  obtain st' where mk: "cache_make st s True = Some st'" and ok': "cache_ok X st'"
    and fm: "free_map st' = free_map st" and sub: "cached st' \<subseteq> insert s (cached st)"
    and v: "cache_view st' s = disk st s"
    and vs: "\<And>s'. s' \<noteq> s \<Longrightarrow> s' \<notin> X \<or> s' \<in> cached st' \<Longrightarrow> cache_view st' s' = cache_view st s'"
    using cache_make_ok [OF ok new, of True] by (metis (full_types))
  from mk obtain c cs where cs: "caches st' = c # cs" "sector c = s"
    by (auto simp: cache_make_def Let_def split: Option.bind_splits)
  then have d: "data c = cache_view st' s" by (simp add: cache_view_def)
  have vs': "cache_view st' s' = cache_view st s'" if "s' \<notin> X \<or> s' \<in> cached st'" for s'
    using vs [of s'] that v cache_view_uncached [OF new] by (cases "s' = s") simp_all
  show ?thesis
    using None mk cs d v cache_view_uncached [OF new] ok' fm sub vs' new
    by (intro that [of 0 st']) (simp_all add: cache_lookup_def)
next
  case (Some i)
  from cache_index_Some [OF Some] cache_index_find [OF Some]
  have "i < length (caches st)" "sector (caches st ! i) = s" "data (caches st ! i) = cache_view st s"
    by (simp_all add: cache_view_def)
  with Some ok show ?thesis
    by (intro that [of i st]) (auto simp: cache_lookup_def)
qed

lemma cache_read_ok:
  assumes ok: "cache_ok X st" and off: "0 \<le> off" "off + int n \<le> int DISK_SECTOR_SIZE"
  obtains st' where "cache_read st s off n = Some (take n (drop (nat off) (cache_view st s)), st')"
    "cache_ok X st'" "free_map st' = free_map st" "cached st' \<subseteq> insert s (cached st)"
    "\<And>s'. s' \<notin> X \<or> s' \<in> cached st' \<Longrightarrow> cache_view st' s' = cache_view st s'"
    "s \<in> cached st \<Longrightarrow> cache_view st' = cache_view st \<and> cached st' = cached st"
    "0 < n \<Longrightarrow> s \<in> cached st'"
proof (cases "n = 0")
  case True
  with ok off show ?thesis by (intro that [of st]) (auto simp: cache_read_def)
next
  case False
  obtain i st1 where lk: "cache_lookup st s True = Some (Some i, st1)"
    and i: "i < length (caches st1)" and sec: "sector (caches st1 ! i) = s"
    and dat: "data (caches st1 ! i) = cache_view st s"
    and ok1: "cache_ok X st1" and fm1: "free_map st1 = free_map st"
    and sub1: "cached st1 \<subseteq> insert s (cached st)"
    and v1: "\<And>s'. s' \<notin> X \<or> s' \<in> cached st1 \<Longrightarrow> cache_view st1 s' = cache_view st s'"
    and hit: "s \<in> cached st \<Longrightarrow> st1 = st"
    by (rule cache_lookup_ok [OF ok, of s]) blast
  define c where "c = caches st1 ! i"
  define st' where "st' = st1\<lparr>caches := c # list_remove i (caches st1)\<rparr>"
  have rd: "cache_read st s off n = Some (take n (drop (nat off) (cache_view st s)), st')"
    using False off lk dat by (simp add: cache_read_def st'_def c_def Let_def)
  have cin: "c \<in> set (caches st1)" using i by (simp add: c_def)
  with ok1 have len: "length (data c) = DISK_SECTOR_SIZE"
    and coh: "dirty c \<or> data c = disk st1 (sector c) \<or> sector c \<in> X"
    by (auto simp: cache_ok_def)
  have sec': "sector c = sector (caches st1 ! i)" by (simp add: c_def)
  note fr = cache_front_ok [OF ok1 i sec' len coh Diff_subset, folded st'_def]
  have sc: "sector c = s" using sec by (simp add: c_def)
  have vall: "cache_view st' s' = cache_view st1 s'" for s'
    using fr(3) fr(4) [of s'] cache_view_cached [OF cin] ok1 by (cases "s' = sector c") (auto simp: cache_ok_def)
  have "cache_view st' s' = cache_view st s'" if "s' \<notin> X \<or> s' \<in> cached st'" for s'
    using vall [of s'] v1 [of s'] that fr(2) by simp
  moreover have "cache_view st' = cache_view st \<and> cached st' = cached st" if "s \<in> cached st"
    using hit [OF that] vall fr(2) by (simp add: fun_eq_iff)
  moreover have "s \<in> cached st'" using fr(2) cin sc by (auto simp: cached_def)
  moreover have "free_map st' = free_map st" by (simp add: st'_def fm1)
  moreover have "cached st' \<subseteq> insert s (cached st)" using fr(2) sub1 by simp
  ultimately show ?thesis using rd fr(1) by (intro that [of st']) 
qed

lemma length_patch: "off + length bs \<le> length d \<Longrightarrow> length (patch d off bs) = length d"
  by (simp add: patch_def)

lemma cache_write_ok:
  assumes ok: "cache_ok X st" and off: "0 \<le> off" "off + int n \<le> int DISK_SECTOR_SIZE"
    and buf: "n \<le> length buf" and n: "0 < n"
  obtains st' where "cache_write st s buf off n = Some st'"
    "cache_ok (X - {s}) st'" "free_map st' = free_map st" "cached st' \<subseteq> insert s (cached st)"
    "s \<in> cached st'" "cache_view st' s = patch (cache_view st s) (nat off) (take n buf)"
    "\<And>s'. s' \<noteq> s \<Longrightarrow> s' \<notin> X \<or> s' \<in> cached st' \<Longrightarrow> cache_view st' s' = cache_view st s'"
    "s \<in> cached st \<Longrightarrow> cached st' = cached st \<and> (\<forall>s'. s' \<noteq> s \<longrightarrow> cache_view st' s' = cache_view st s')"
proof -
  obtain i st1 where lk: "cache_lookup st s True = Some (Some i, st1)"
    and i: "i < length (caches st1)" and sec: "sector (caches st1 ! i) = s"
    and dat: "data (caches st1 ! i) = cache_view st s"
    and ok1: "cache_ok X st1" and fm1: "free_map st1 = free_map st"
    and sub1: "cached st1 \<subseteq> insert s (cached st)"
    and v1: "\<And>s'. s' \<notin> X \<or> s' \<in> cached st1 \<Longrightarrow> cache_view st1 s' = cache_view st s'"
    and hit: "s \<in> cached st \<Longrightarrow> st1 = st"
    by (rule cache_lookup_ok [OF ok, of s]) blast
  define c where "c = (caches st1 ! i)\<lparr>data := patch (data (caches st1 ! i)) (nat off) (take n buf),
      dirty := True\<rparr>"
  define st' where "st' = st1\<lparr>caches := c # list_remove i (caches st1)\<rparr>"
  have wr: "cache_write st s buf off n = Some st'"
    using n off buf lk by (simp add: cache_write_def st'_def c_def Let_def)
  have "caches st1 ! i \<in> set (caches st1)" using i by simp
  with ok1 have "length (data (caches st1 ! i)) = DISK_SECTOR_SIZE" by (auto simp: cache_ok_def)
  then have len: "length (data c) = DISK_SECTOR_SIZE"
    using off buf by (simp add: c_def length_patch)
  have sec': "sector c = sector (caches st1 ! i)" and sc: "sector c = s" and dc: "dirty c"
    using sec by (simp_all add: c_def)
  have coh: "dirty c \<or> data c = disk st1 (sector c) \<or> sector c \<in> X - {s}" using dc by simp
  have sub: "X - {sector c} \<subseteq> X - {s}" using sc by simp
  note fr = cache_front_ok [OF ok1 i sec' len coh sub, folded st'_def, unfolded sc]
  have "cache_view st' s = patch (cache_view st s) (nat off) (take n buf)"
    using fr(3) dat by (simp add: c_def)
  moreover have "cache_view st' s' = cache_view st s'" if "s' \<noteq> s" "s' \<notin> X \<or> s' \<in> cached st'" for s'
    using fr(4) [OF that(1)] v1 [of s'] that(2) fr(2) by simp
  moreover have "cached st' = cached st \<and> (\<forall>s'. s' \<noteq> s \<longrightarrow> cache_view st' s' = cache_view st s')"
    if "s \<in> cached st"
    using hit [OF that] fr(2) fr(4) by simp
  moreover have "s \<in> cached st'" using fr(2) i sec by (auto simp: cached_def)
  moreover have "free_map st' = free_map st" by (simp add: st'_def fm1)
  moreover have "cached st' \<subseteq> insert s (cached st)" using fr(2) sub1 by simp
  ultimately show ?thesis using wr fr(1) by (intro that [of st'])
qed

lemma cache_create_ok:
  assumes ok: "cache_ok X st" and new: "s \<notin> cached st"
  obtains st' where "cache_create st s = Some st'"
    "cache_ok (insert s X) st'"
    "free_map st' = free_map st" "cached st' \<subseteq> insert s (cached st)" "s \<in> cached st'"
    "cache_view st' s = zero_sector"
    "\<And>s'. s' \<noteq> s \<Longrightarrow> s' \<notin> X \<or> s' \<in> cached st' \<Longrightarrow> cache_view st' s' = cache_view st s'"
  using cache_make_ok [OF ok new, of False] unfolding cache_create_def by (metis (full_types))

section \<open>Words in sectors\<close>

lemma length_bytes_of_word [simp]: "length (bytes_of_word w) = 4"
  by (simp add: bytes_of_word_def)

lemma word_of_bytes_zero: "set bs \<subseteq> {0} \<Longrightarrow> word_of_bytes bs = 0"
proof -
  assume "set bs \<subseteq> {0}"
  then have "foldr (\<lambda>b n. unat b + 256 * n) bs 0 = 0" by (induction bs) auto
  then show ?thesis by (simp add: word_of_bytes_def)
qed

lemma word_at_zero_sector [simp]: "word_at zero_sector off = 0"
proof -
  have "set (take 4 (drop off zero_sector)) \<subseteq> {0}"
    by (auto simp: zero_sector_def dest!: in_set_takeD in_set_dropD)
  then show ?thesis unfolding word_at_def by (rule word_of_bytes_zero)
qed

lemma take_drop_patch_same:
  "off + length bs \<le> length d \<Longrightarrow> take (length bs) (drop off (patch d off bs)) = bs"
  by (simp add: patch_def)

lemma word_at_patch_same:
  "off + 4 \<le> length d \<Longrightarrow> word_at (patch d off (bytes_of_word w)) off = w"
  using take_drop_patch_same [of off "bytes_of_word w" d]
  by (simp add: word_at_def word_of_bytes_of_word)

lemma nth_patch:
  assumes "off + length bs \<le> length d" "k < length d"
  shows "patch d off bs ! k = (if off \<le> k \<and> k < off + length bs then bs ! (k - off) else d ! k)"
  using assms by (auto simp: patch_def nth_append min_def)

lemma take_drop_patch_other:
  assumes "off + length bs \<le> length d" "k + n \<le> off \<or> off + length bs \<le> k" "k + n \<le> length d"
  shows "take n (drop k (patch d off bs)) = take n (drop k d)"
proof (rule nth_equalityI)
  show "length (take n (drop k (patch d off bs))) = length (take n (drop k d))"
    using assms by (simp add: length_patch)
next
  fix i assume "i < length (take n (drop k (patch d off bs)))"
  then have i: "i < n" "k + i < length d" using assms by (simp_all add: length_patch)
  with assms show "take n (drop k (patch d off bs)) ! i = take n (drop k d) ! i"
    by (auto simp: length_patch nth_patch)
qed

lemma word_at_patch_other:
  assumes "off + length bs \<le> length d" "k + 4 \<le> off \<or> off + length bs \<le> k" "k + 4 \<le> length d"
  shows "word_at (patch d off bs) k = word_at d k"
  using take_drop_patch_other [OF assms] by (simp add: word_at_def)

lemma sint_length_word:
  assumes "- (2 ^ 31) \<le> len" "len < 2 ^ 31"
  shows "sint (word_of_bytes (bytes_of_word (word_of_int len))) = len"
  using assms by (simp add: word_of_bytes_of_word sint_sbintrunc' signed_take_bit_int_eq_self)

section \<open>Creating an inode\<close>

definition boot_fs :: fs where
  "boot_fs = \<lparr>caches = [], cache_count = 0, disk = (\<lambda>_. zero_sector),
              free_map = [True, True, False, False]\<rparr>"

lemma cache_make_front:
  assumes "cache_inv st"
  obtains st' cs where "cache_make st s rd = Some st'"
    "caches st' = \<lparr>sector = s, dirty = False,
        data = (if rd then disk st' s else replicate DISK_SECTOR_SIZE 0)\<rparr> # cs"
    "free_map st' = free_map st" "cache_inv st'"
proof -
  obtain st1 where ev: "(if cache_count st = CACHE_MAX then cache_evict st else Some st) = Some st1"
    and fm: "free_map st1 = free_map st"
  proof (cases "cache_count st = CACHE_MAX")
    case True
    with assms have "caches st \<noteq> []" by (auto simp: cache_inv_def CACHE_MAX_def)
    with True that show ?thesis by (simp add: cache_evict_def)
  next
    case False
    with that show ?thesis by simp
  qed
  define st' where "st' = st1\<lparr>caches := \<lparr>sector = s, dirty = False,
       data = (if rd then disk st1 s else replicate DISK_SECTOR_SIZE 0)\<rparr> # caches st1,
       cache_count := cache_count st1 + 1\<rparr>"
  have mk: "cache_make st s rd = Some st'"
    using ev by (simp add: cache_make_def st'_def Let_def split: if_splits)
  from cache_inv_make [OF assms mk] mk fm show ?thesis
    by (intro that [of st' "caches st1"]) (simp_all add: st'_def)
qed

lemma cache_write_front:
  assumes "caches st = c # cs" "sector c = s" "0 < n" "n \<le> length buf" "n \<le> DISK_SECTOR_SIZE"
  shows "cache_write st s buf 0 n =
     Some (st\<lparr>caches := c\<lparr>data := patch (data c) 0 (take n buf), dirty := True\<rparr> # cs\<rparr>)"
  using assms by (simp add: cache_write_def cache_lookup_def list_remove_Cons Let_def)

lemma bytes_of_word_0: "bytes_of_word 0 = [0, 0, 0, 0]"
  by (simp add: bytes_of_word_def upt_rec)

lemma inode_disk_bytes_fresh:
  "inode_disk_bytes \<lparr>ilength = len, dir = False, direct = replicate 12 0,
       indirect = 0, double_indirect = 0, magic = m\<rparr>
     = bytes_of_word (word_of_int len) @ replicate 60 0 @ bytes_of_word m"
  by (simp add: inode_disk_bytes_def bytes_of_word_0 numeral_eq_Suc)


lemma fresh_inode_words:
  fixes w m :: "32 word"
  defines "img \<equiv> bytes_of_word w @ replicate 60 0 @ bytes_of_word m @ replicate 444 0"
  shows "word_at img 0 = w" "i < 12 \<Longrightarrow> word_at img (8 + 4 * i) = 0"
    "word_at img 56 = 0" "word_at img 60 = 0" "word_at img 64 = m"
proof -
  show "word_at img 0 = w" by (simp add: img_def word_at_def word_of_bytes_of_word)
  show "word_at img 64 = m" by (simp add: img_def word_at_def word_of_bytes_of_word)
  have z: "word_at img k = 0" if "4 \<le> k" "k + 4 \<le> 64" for k
  proof -
    have "take 4 (drop k img) = replicate 4 0"
      using that by (simp add: img_def min_def)
    then show ?thesis
      using word_of_bytes_zero [of "replicate 4 0"] by (simp add: word_at_def)
  qed
  show "word_at img (8 + 4 * i) = 0" if "i < 12" using that by (intro z) simp_all
  show "word_at img 56 = 0" "word_at img 60 = 0" by (intro z; simp)+
qed

text \<open>
  C6 (amended). For every sector other than 0 and every length \<open>0 \<le> len < 2^31\<close>,
  \<^verbatim>\<open>inode_create\<close> returns true, leaves the free-map as it is, and leaves at the front of
  the cache a dirty slot for the sector that holds the length, the magic number and
  zero in all twelve direct slots, the indirect and the double-indirect slot.
\<close>

theorem C6_inode_create_no_allocation:
  "cache_inv st \<Longrightarrow> s \<noteq> 0 \<Longrightarrow> 0 \<le> len \<Longrightarrow> len < 2 ^ 31 \<Longrightarrow>
     \<exists>st'. inode_create st s len = Some (True, st') \<and> free_map st' = free_map st \<and>
       sector (hd (caches st')) = s \<and> dirty (hd (caches st')) \<and>
       sint (word_at (cache_view st' s) 0) = len \<and>
       (\<forall>i<12. word_at (cache_view st' s) (8 + 4 * i) = 0) \<and>
       word_at (cache_view st' s) 56 = 0 \<and> word_at (cache_view st' s) 60 = 0 \<and>
       word_at (cache_view st' s) 64 = INODE_MAGIC"
proof -
  assume inv: "cache_inv st" and s: "s \<noteq> 0" and len: "0 \<le> len" "len < 2 ^ 31"
  define img where "img = inode_disk_bytes \<lparr>ilength = len, dir = False, direct = replicate 12 0,
       indirect = 0, double_indirect = 0, magic = INODE_MAGIC\<rparr>"
  have img: "img = bytes_of_word (word_of_int len) @ replicate 60 0 @ bytes_of_word INODE_MAGIC"
    unfolding img_def by (rule inode_disk_bytes_fresh)
  then have limg: "length img = 68" by simp
  obtain st2 cs where mk: "cache_make st s False = Some st2"
    and cs2: "caches st2 = \<lparr>sector = s, dirty = False, data = replicate DISK_SECTOR_SIZE 0\<rparr> # cs"
    and fm2: "free_map st2 = free_map st"
    by (rule cache_make_front [OF inv, of s False]) auto
  define c where "c = \<lparr>sector = s, dirty = True, data = img @ replicate 444 0\<rparr>"
  define st3 where "st3 = st2\<lparr>caches := c # cs\<rparr>"
  have "patch (replicate DISK_SECTOR_SIZE 0) 0 (take 68 img) = img @ replicate 444 0"
    using limg by (simp add: patch_def DISK_SECTOR_SIZE_def)
  then have wr: "cache_write st2 s img 0 SIZEOF_INODE_DISK = Some st3"
    using cache_write_front [OF cs2, of s 68 img] limg
    by (simp add: SIZEOF_INODE_DISK_def DISK_SECTOR_SIZE_def st3_def c_def)
  have cr: "inode_create st s len = Some (True, st3)"
    using s len mk wr
    by (simp add: inode_create_def cache_create_def img_def numeral_eq_Suc)
  have v: "cache_view st3 s = bytes_of_word (word_of_int len) @ replicate 60 0
      @ bytes_of_word INODE_MAGIC @ replicate 444 0"
    by (simp add: cache_view_def st3_def c_def img)
  have "sint (word_at (cache_view st3 s) 0) = len"
    unfolding v fresh_inode_words(1) using len
    by (simp add: sint_sbintrunc' signed_take_bit_int_eq_self)
  moreover have "\<forall>i<12. word_at (cache_view st3 s) (8 + 4 * i) = 0"
    unfolding v by (simp add: fresh_inode_words(2))
  moreover have "word_at (cache_view st3 s) 56 = 0" "word_at (cache_view st3 s) 60 = 0"
    "word_at (cache_view st3 s) 64 = INODE_MAGIC"
    unfolding v by (rule fresh_inode_words)+
  moreover have "free_map st3 = free_map st" "sector (hd (caches st3)) = s" "dirty (hd (caches st3))"
    by (simp_all add: st3_def fm2 c_def)
  ultimately show ?thesis using cr by blast
qed

theorem C6_witness:
  "cache_inv boot_fs \<and> (5 :: disk_sector_t) \<noteq> 0 \<and> (0 :: int) \<le> 1000 \<and> (1000 :: int) < 2 ^ 31 \<and>
   (\<exists>st'. inode_create boot_fs 5 1000 = Some (True, st') \<and> free_map st' = free_map boot_fs \<and>
       sector (hd (caches st')) = 5 \<and> dirty (hd (caches st')) \<and>
       sint (word_at (cache_view st' 5) 0) = 1000 \<and>
       (\<forall>i<12. word_at (cache_view st' 5) (8 + 4 * i) = 0) \<and>
       word_at (cache_view st' 5) 56 = 0 \<and> word_at (cache_view st' 5) 60 = 0 \<and>
       word_at (cache_view st' 5) 64 = INODE_MAGIC)"
proof -
  have inv: "cache_inv boot_fs" by (simp add: cache_inv_def boot_fs_def CACHE_MAX_def)
  from C6_inode_create_no_allocation [OF inv, of 5 1000] inv show ?thesis by simp
qed

text \<open>
  The claim as stated fails for sector 0, the free-map's own inode: \<^verbatim>\<open>inode_create\<close>
  allocates \<^verbatim>\<open>direct[0]\<close> from the free-map there.
\<close>

theorem C6_counterexample:
  "\<exists>st'. inode_create boot_fs 0 0 = Some (True, st') \<and>
         free_map boot_fs = [True, True, False, False] \<and>
         free_map st' = [True, True, True, False] \<and> word_at (cache_view st' 0) 8 = 2"
proof -
  have a: "free_map_allocate (free_map boot_fs) = Some (2, [True, True, True, False])"
    by (simp add: free_map_allocate_def boot_fs_def)
  define st1 where "st1 = boot_fs\<lparr>free_map := [True, True, True, False]\<rparr>"
  have inv: "cache_inv st1" by (simp add: st1_def cache_inv_def boot_fs_def CACHE_MAX_def)
  define img where "img = inode_disk_bytes \<lparr>ilength = 0, dir = False, direct = 2 # replicate 11 0,
       indirect = 0, double_indirect = 0, magic = INODE_MAGIC\<rparr>"
  have limg: "length img = 68"
    by (simp add: img_def inode_disk_bytes_def length_concat sum_list_replicate)
  obtain st2 cs where mk: "cache_make st1 0 False = Some st2"
    and cs2: "caches st2 = \<lparr>sector = 0, dirty = False, data = replicate DISK_SECTOR_SIZE 0\<rparr> # cs"
    and fm2: "free_map st2 = free_map st1"
    by (rule cache_make_front [OF inv, of 0 False]) auto
  define st3 where "st3 = st2\<lparr>caches :=
      \<lparr>sector = 0, dirty = True, data = patch (replicate DISK_SECTOR_SIZE 0) 0 (take 68 img)\<rparr> # cs\<rparr>"
  have wr: "cache_write st2 0 img 0 SIZEOF_INODE_DISK = Some st3"
    using cache_write_front [OF cs2, of 0 68 img] limg
    by (simp add: SIZEOF_INODE_DISK_def DISK_SECTOR_SIZE_def st3_def)
  have cr: "inode_create boot_fs 0 0 = Some (True, st3)"
    using a mk wr by (simp add: inode_create_def cache_create_def img_def st1_def)
  have "take 4 (drop 8 img) = bytes_of_word 2"
    by (simp add: img_def inode_disk_bytes_def)
  then have "word_at (cache_view st3 0) 8 = 2"
    using limg by (simp add: cache_view_def st3_def patch_def word_at_def word_of_bytes_of_word)
  with cr show ?thesis by (simp add: st3_def fm2 st1_def boot_fs_def)
qed

section \<open>The index of an inode\<close>

text \<open>
  The positions of the index words of one inode: the twelve direct slots, the indirect
  and the double-indirect slot of the inode sector, the slots of the indirect block, the
  slots of the double-indirect block, and the slots of the blocks those point to.
\<close>

datatype ipos = Direct nat | Ind | Dbl | IndSlot nat | DblSlot nat | L2Slot nat nat

fun valid_pos :: "ipos \<Rightarrow> bool" where
  "valid_pos (Direct i) = (i < 12)"
| "valid_pos Ind = True"
| "valid_pos Dbl = True"
| "valid_pos (IndSlot j) = (j < 128)"
| "valid_pos (DblSlot i) = (i < 128)"
| "valid_pos (L2Slot i j) = (i < 128 \<and> j < 128)"

fun top_pos :: "ipos \<Rightarrow> bool" where
  "top_pos (Direct i) = True"
| "top_pos Ind = True"
| "top_pos Dbl = True"
| "top_pos q = False"

fun is_index :: "ipos \<Rightarrow> bool" where
  "is_index Ind = True"
| "is_index Dbl = True"
| "is_index (DblSlot i) = True"
| "is_index q = False"

text \<open>The byte offset of a position's word in its sector, and the position above it.\<close>

fun hofs :: "ipos \<Rightarrow> nat" where
  "hofs (Direct i) = 8 + 4 * i"
| "hofs Ind = 56"
| "hofs Dbl = 60"
| "hofs (IndSlot j) = 4 * j"
| "hofs (DblSlot i) = 4 * i"
| "hofs (L2Slot i j) = 4 * j"

fun par :: "ipos \<Rightarrow> ipos" where
  "par (IndSlot j) = Ind"
| "par (DblSlot i) = Dbl"
| "par (L2Slot i j) = DblSlot i"
| "par q = q"

text \<open>
  \<open>iref v I q\<close> is the sector number that the index of inode \<open>I\<close> holds at position \<open>q\<close>,
  read in the sector contents \<open>v\<close>; a position below a zero slot holds 0.
\<close>

definition dbl_slot :: "(disk_sector_t \<Rightarrow> byte list) \<Rightarrow> disk_sector_t \<Rightarrow> nat \<Rightarrow> disk_sector_t" where
  "dbl_slot v I i = (if word_at (v I) 60 = 0 then 0 else word_at (v (word_at (v I) 60)) (4 * i))"

fun iref :: "(disk_sector_t \<Rightarrow> byte list) \<Rightarrow> disk_sector_t \<Rightarrow> ipos \<Rightarrow> disk_sector_t" where
  "iref v I (Direct i) = word_at (v I) (8 + 4 * i)"
| "iref v I Ind = word_at (v I) 56"
| "iref v I Dbl = word_at (v I) 60"
| "iref v I (IndSlot j) =
     (if word_at (v I) 56 = 0 then 0 else word_at (v (word_at (v I) 56)) (4 * j))"
| "iref v I (DblSlot i) = dbl_slot v I i"
| "iref v I (L2Slot i j) =
     (if dbl_slot v I i = 0 then 0 else word_at (v (dbl_slot v I i)) (4 * j))"

definition home :: "(disk_sector_t \<Rightarrow> byte list) \<Rightarrow> disk_sector_t \<Rightarrow> ipos \<Rightarrow> disk_sector_t" where
  "home v I q = (if top_pos q then I else iref v I (par q))"

text \<open>The position of the data block number \<open>b\<close> of the file.\<close>

definition block_pos :: "nat \<Rightarrow> ipos" where
  "block_pos b =
     (if b < 12 then Direct b
      else if b < 140 then IndSlot (b - 12)
      else L2Slot ((b - 140) div 128) ((b - 140) mod 128))"

definition allocated :: "bool list \<Rightarrow> disk_sector_t \<Rightarrow> bool" where
  "allocated fm s \<longleftrightarrow> unat s < length fm \<and> fm ! unat s"

text \<open>
  The index is well formed: the bitmap covers at most \<open>2^32\<close> sectors, sector 0 and the
  inode sector are allocated, every sector the index names is allocated and is not the
  inode sector, and no sector is named at two positions.
\<close>

definition tree_ok :: "(disk_sector_t \<Rightarrow> byte list) \<Rightarrow> disk_sector_t \<Rightarrow> bool list \<Rightarrow> bool" where
  "tree_ok v I fm \<longleftrightarrow>
     length fm \<le> 2 ^ 32 \<and> allocated fm 0 \<and> allocated fm I \<and>
     (\<forall>q. valid_pos q \<and> iref v I q \<noteq> 0 \<longrightarrow> allocated fm (iref v I q) \<and> iref v I q \<noteq> I) \<and>
     (\<forall>q q'. valid_pos q \<and> valid_pos q' \<and> iref v I q \<noteq> 0 \<and> iref v I q = iref v I q' \<longrightarrow> q = q')"

definition index_sector :: "(disk_sector_t \<Rightarrow> byte list) \<Rightarrow> disk_sector_t \<Rightarrow> disk_sector_t \<Rightarrow> bool" where
  "index_sector v I s \<longleftrightarrow> s = I \<or> (s \<noteq> 0 \<and> (\<exists>q. valid_pos q \<and> is_index q \<and> iref v I q = s))"

text \<open>
  The state is well formed for inode \<open>I\<close>: the cache is coherent but for the sectors of
  \<open>X\<close>, the index is well formed in what the cache shows, every cached sector is
  allocated, and the sectors that hold index words are not in \<open>X\<close>, but for those of
  \<open>E\<close>, which are cached and all zero (an index block just created, before the walk
  stores its first word).
\<close>

definition walk_ok :: "disk_sector_t set \<Rightarrow> disk_sector_t set \<Rightarrow> fs \<Rightarrow> disk_sector_t \<Rightarrow> bool" where
  "walk_ok E X st I \<longleftrightarrow>
     cache_ok X st \<and> tree_ok (cache_view st) I (free_map st) \<and>
     (\<forall>s. index_sector (cache_view st) I s \<longrightarrow> s \<notin> X \<or> s \<in> E) \<and> I \<notin> E \<and>
     (\<forall>e \<in> E. e \<in> cached st \<and> cache_view st e = zero_sector) \<and>
     cached st \<subseteq> {s. allocated (free_map st) s}"

definition inode_ok :: "disk_sector_t set \<Rightarrow> fs \<Rightarrow> disk_sector_t \<Rightarrow> bool" where
  "inode_ok X st I = walk_ok {} X st I"

lemma iref_top: "top_pos q \<Longrightarrow> iref v I q = word_at (v I) (hofs q)"
  by (cases q) simp_all

lemma iref_par:
  "\<not> top_pos q \<Longrightarrow>
     iref v I q = (if iref v I (par q) = 0 then 0 else word_at (v (iref v I (par q))) (hofs q))"
  by (cases q) (simp_all add: dbl_slot_def)

lemma valid_par: "valid_pos q \<Longrightarrow> \<not> top_pos q \<Longrightarrow> valid_pos (par q) \<and> is_index (par q)"
  by (cases q) simp_all

lemma hofs_bound: "valid_pos q \<Longrightarrow> hofs q + 4 \<le> DISK_SECTOR_SIZE"
  by (cases q) (simp_all add: DISK_SECTOR_SIZE_def)

lemma hofs_top: "top_pos q \<Longrightarrow> 8 \<le> hofs q"
  by (cases q) simp_all

lemma hofs_dvd: "4 dvd hofs q"
  by (cases q) simp_all

lemma hofs_apart: "hofs q \<noteq> hofs q' \<Longrightarrow> hofs q + 4 \<le> hofs q' \<or> hofs q' + 4 \<le> hofs q"
  using hofs_dvd [of q] hofs_dvd [of q'] by (auto elim!: dvdE)

lemma top_hofs_inj:
  "top_pos q \<Longrightarrow> top_pos q' \<Longrightarrow> valid_pos q \<Longrightarrow> valid_pos q' \<Longrightarrow> hofs q = hofs q' \<Longrightarrow> q = q'"
  by (cases q; cases q') simp_all

lemma par_hofs_inj:
  "\<not> top_pos q \<Longrightarrow> \<not> top_pos q' \<Longrightarrow> par q = par q' \<Longrightarrow> hofs q = hofs q' \<Longrightarrow> q = q'"
  by (cases q; cases q') simp_all

lemma par_neq: "\<not> top_pos q \<Longrightarrow> par q \<noteq> q"
  by (cases q) simp_all

lemma first_free_Some: "first_free fm = Some i \<Longrightarrow> i < length fm \<and> \<not> fm ! i"
  by (induction fm arbitrary: i) (auto split: if_splits)

lemma first_free_None: "first_free fm = None \<longleftrightarrow> (\<forall>b \<in> set fm. b)"
  by (induction fm) auto

lemma free_map_allocate_Some:
  assumes "free_map_allocate fm = Some (p, fm')" "length fm \<le> 2 ^ 32"
  shows "\<not> allocated fm p" "unat p < length fm" "fm' = fm[unat p := True]"
    "allocated fm' s \<longleftrightarrow> allocated fm s \<or> s = p" "length fm' = length fm"
proof -
  from assms(1) obtain i where i: "first_free fm = Some i" "p = word_of_nat i" "fm' = fm[i := True]"
    by (auto simp: free_map_allocate_def split: option.splits)
  from first_free_Some [OF i(1)] have il: "i < length fm" "\<not> fm ! i" by simp_all
  with assms(2) have "i < 2 ^ 32" by simp
  then have u: "unat p = i" by (simp add: i(2) unat_of_nat take_bit_nat_eq_self)
  show "\<not> allocated fm p" "unat p < length fm" "fm' = fm[unat p := True]" "length fm' = length fm"
    using il u i(3) by (simp_all add: allocated_def)
  show "allocated fm' s \<longleftrightarrow> allocated fm s \<or> s = p"
    using il u i(3) by (auto simp: allocated_def nth_list_update word_unat_eq_iff)
qed


lemma top_par_par: "top_pos (par (par q))"
  by (cases q) simp_all

lemma par_top: "top_pos q \<Longrightarrow> par q = q"
  by (cases q) simp_all

lemma home_index:
  assumes "valid_pos q" "top_pos q \<or> home v I q \<noteq> 0"
  shows "index_sector v I (home v I q)"
proof (cases "top_pos q")
  case True
  then show ?thesis by (simp add: home_def index_sector_def)
next
  case False
  with assms valid_par [of q] show ?thesis by (auto simp: home_def index_sector_def)
qed

lemma index_sector_allocated:
  "tree_ok v I fm \<Longrightarrow> index_sector v I s \<Longrightarrow> allocated fm s"
  by (auto simp: tree_ok_def index_sector_def)

text \<open>
  Storing a fresh sector number \<open>p\<close> at a position that held 0, and zeroing sector \<open>p\<close>,
  changes the index at that position only.
\<close>

lemma iref_update:
  assumes tree: "tree_ok v I fm"
    and q: "valid_pos q" and zero: "iref v I q = 0" and hq: "top_pos q \<or> home v I q \<noteq> 0"
    and fresh: "\<not> allocated fm p"
    and len: "length (v (home v I q)) = DISK_SECTOR_SIZE"
    and vh: "v' (home v I q) = patch (v (home v I q)) (hofs q) (bytes_of_word p)"
    and vp: "v' p = zero_sector"
    and vo: "\<And>s. index_sector v I s \<Longrightarrow> s \<noteq> home v I q \<Longrightarrow> v' s = v s"
    and q': "valid_pos q'"
  shows "iref v' I q' = (if q' = q then p else iref v I q')"
proof -
  define h where "h = home v I q"
  from tree have inj: "\<And>r r'. valid_pos r \<Longrightarrow> valid_pos r' \<Longrightarrow> iref v I r \<noteq> 0 \<Longrightarrow>
      iref v I r = iref v I r' \<Longrightarrow> r = r'"
    and notI: "\<And>r. valid_pos r \<Longrightarrow> iref v I r \<noteq> 0 \<Longrightarrow> iref v I r \<noteq> I"
    and a0: "allocated fm 0"
    unfolding tree_ok_def by blast+
  have hidx: "index_sector v I h" unfolding h_def using q hq by (rule home_index)
  have p0: "p \<noteq> 0" using a0 fresh by auto
  have at_q: "word_at (v' h) (hofs q) = p"
    using hofs_bound [OF q] len by (simp add: h_def vh word_at_patch_same)
  have other: "word_at (v' h) (hofs r) = word_at (v h) (hofs r)" if "hofs r \<noteq> hofs q" "valid_pos r" for r
    using hofs_apart [OF that(1)] hofs_bound [OF q] hofs_bound [OF that(2)] len
    by (simp add: h_def vh word_at_patch_other)
  have qtop: "top_pos q \<longleftrightarrow> h = I"
  proof
    assume "top_pos q" then show "h = I" by (simp add: h_def home_def)
  next
    assume hI: "h = I"
    show "top_pos q"
    proof (rule ccontr)
      assume nt: "\<not> top_pos q"
      then have "h = iref v I (par q)" by (simp add: h_def home_def)
      moreover from nt hq have "h \<noteq> 0" by (simp add: h_def)
      ultimately show False using notI [of "par q"] valid_par [OF q nt] hI by simp
    qed
  qed
  have T: "iref v' I r = (if r = q then p else iref v I r)" if r: "top_pos r" "valid_pos r" for r
  proof (cases "h = I")
    case True
    with qtop have tq: "top_pos q" by simp
    show ?thesis
    proof (cases "r = q")
      case True
      with at_q \<open>h = I\<close> r show ?thesis by (simp add: iref_top)
    next
      case False
      with top_hofs_inj [OF r(1) tq r(2) q] have "hofs r \<noteq> hofs q" by auto
      from other [OF this r(2)] \<open>h = I\<close> False r show ?thesis by (simp add: iref_top)
    qed
  next
    case False
    with qtop r have "r \<noteq> q" by auto
    moreover have "v' I = v I" using vo [of I] False by (simp add: index_sector_def h_def)
    ultimately show ?thesis using r by (simp add: iref_top)
  qed
  have C: "iref v' I r = (if r = q then p else iref v I r)"
    if r: "\<not> top_pos r" "valid_pos r"
      and IH: "iref v' I (par r) = (if par r = q then p else iref v I (par r))" for r
  proof (cases "par r = q")
    case True
    with par_neq [OF r(1)] have rq: "r \<noteq> q" by auto
    from True IH p0 have "iref v' I r = 0" using r(1) by (simp add: iref_par vp)
    moreover from True zero r(1) have "iref v I r = 0" by (simp add: iref_par)
    ultimately show ?thesis using rq by simp
  next
    case False
    define s where "s = iref v I (par r)"
    from False IH have a: "iref v' I (par r) = s" by (simp add: s_def)
    show ?thesis
    proof (cases "s = 0")
      case True
      have "r \<noteq> q"
      proof
        assume "r = q"
        with r(1) True have "\<not> top_pos q" "home v I q = 0" by (simp_all add: home_def s_def)
        with hq show False by simp
      qed
      with True a r(1) show ?thesis by (simp add: iref_par s_def)
    next
      case s0: False
      from valid_par [OF r(2) r(1)] s0 have sidx: "index_sector v I s"
        by (auto simp: index_sector_def s_def)
      show ?thesis
      proof (cases "s = h")
        case True
        have ntq: "\<not> top_pos q"
        proof
          assume "top_pos q"
          with qtop True have "s = I" by simp
          with notI [of "par r"] valid_par [OF r(2) r(1)] s0 show False by (simp add: s_def)
        qed
        then have "iref v I (par r) = iref v I (par q)" using True by (simp add: s_def h_def home_def)
        from inj [OF _ _ _ this] valid_par [OF r(2) r(1)] valid_par [OF q ntq] s0
        have pp: "par r = par q" by (simp add: s_def)
        show ?thesis
        proof (cases "r = q")
          case True
          with at_q \<open>s = h\<close> a s0 r(1) show ?thesis by (simp add: iref_par)
        next
          case False
          with par_hofs_inj [OF r(1) ntq pp] have "hofs r \<noteq> hofs q" by auto
          from other [OF this r(2)] \<open>s = h\<close> a s0 r(1) False show ?thesis
            by (simp add: iref_par s_def)
        qed
      next
        case False
        have "r \<noteq> q"
        proof
          assume "r = q"
          with r(1) have "h = s" by (simp add: h_def home_def s_def)
          with False show False by simp
        qed
        moreover have "v' s = v s" using vo [OF sidx] False by (simp add: h_def)
        ultimately show ?thesis using a s0 r(1) by (simp add: iref_par s_def)
      qed
    qed
  qed
  show ?thesis
  proof (cases "top_pos q'")
    case True
    from T [OF True q'] show ?thesis .
  next
    case nt: False
    show ?thesis
    proof (cases "top_pos (par q')")
      case True
      from valid_par [OF q' nt] have "valid_pos (par q')" by simp
      from C [OF nt q' T [OF True this]] show ?thesis .
    next
      case False
      from valid_par [OF q' nt] have v1: "valid_pos (par q')" by simp
      from valid_par [OF v1 False] have v2: "valid_pos (par (par q'))" by simp
      from C [OF nt q' C [OF False v1 T [OF top_par_par v2]]] show ?thesis .
    qed
  qed
qed

section \<open>One step of the index walk\<close>

lemma iref_same:
  assumes vo: "\<And>s. index_sector v I s \<Longrightarrow> v' s = v s" and q: "valid_pos q"
  shows "iref v' I q = iref v I q"
proof -
  have vI: "v' I = v I" using vo [of I] by (simp add: index_sector_def)
  have T: "iref v' I r = iref v I r" if "top_pos r" for r
    using that vI by (simp add: iref_top)
  have C: "iref v' I r = iref v I r"
    if r: "\<not> top_pos r" "valid_pos r" and IH: "iref v' I (par r) = iref v I (par r)" for r
  proof (cases "iref v I (par r) = 0")
    case True
    with IH r(1) show ?thesis by (simp add: iref_par)
  next
    case False
    with valid_par [OF r(2) r(1)] have "index_sector v I (iref v I (par r))"
      by (auto simp: index_sector_def)
    from vo [OF this] IH r(1) show ?thesis by (simp add: iref_par)
  qed
  show ?thesis
  proof (cases "top_pos q")
    case True
    then show ?thesis by (rule T)
  next
    case nt: False
    from valid_par [OF q nt] have v1: "valid_pos (par q)" by simp
    show ?thesis
    proof (cases "top_pos (par q)")
      case True
      from C [OF nt q T [OF True]] show ?thesis .
    next
      case False
      from C [OF nt q C [OF False v1 T [OF top_par_par]]] show ?thesis .
    qed
  qed
qed

lemma tree_ok_cong:
  assumes "\<And>q. valid_pos q \<Longrightarrow> iref v' I q = iref v I q"
  shows "tree_ok v' I fm = tree_ok v I fm"
  using assms unfolding tree_ok_def by auto

lemma index_sector_cong:
  assumes "\<And>q. valid_pos q \<Longrightarrow> iref v' I q = iref v I q"
  shows "index_sector v' I s = index_sector v I s"
  using assms unfolding index_sector_def by auto

lemma tree_ok_update:
  assumes tree: "tree_ok v I fm"
    and upd: "\<And>q'. valid_pos q' \<Longrightarrow> iref v' I q' = (if q' = q then p else iref v I q')"
    and fresh: "\<not> allocated fm p"
    and fm': "\<And>s. allocated fm' s \<longleftrightarrow> allocated fm s \<or> s = p" "length fm' = length fm"
  shows "tree_ok v' I fm'"
proof -
  from tree have len: "length fm \<le> 2 ^ 32" and a0: "allocated fm 0" and aI: "allocated fm I"
    and al: "\<And>r. valid_pos r \<Longrightarrow> iref v I r \<noteq> 0 \<Longrightarrow> allocated fm (iref v I r) \<and> iref v I r \<noteq> I"
    and inj: "\<And>r r'. valid_pos r \<Longrightarrow> valid_pos r' \<Longrightarrow> iref v I r \<noteq> 0 \<Longrightarrow>
      iref v I r = iref v I r' \<Longrightarrow> r = r'"
    unfolding tree_ok_def by blast+
  have pI: "p \<noteq> I" using aI fresh by auto
  show ?thesis
    unfolding tree_ok_def
  proof (intro conjI allI impI)
    show "length fm' \<le> 2 ^ 32" using len fm'(2) by simp
    show "allocated fm' 0" "allocated fm' I" using a0 aI fm'(1) by simp_all
  next
    fix r assume r: "valid_pos r \<and> iref v' I r \<noteq> 0"
    then show "allocated fm' (iref v' I r)" "iref v' I r \<noteq> I"
      using upd [of r] al [of r] fm'(1) pI by (auto split: if_splits)
  next
    fix r r' assume a: "valid_pos r \<and> valid_pos r' \<and> iref v' I r \<noteq> 0 \<and> iref v' I r = iref v' I r'"
    show "r = r'"
    proof (cases "r = q")
      case True
      with a upd [of r] upd [of r'] have "r' \<noteq> q \<Longrightarrow> iref v I r' = p" "p \<noteq> 0" by auto
      with al [of r'] a fresh have "r' = q" by auto
      with True show ?thesis by simp
    next
      case False
      with a upd [of r] have r: "iref v I r \<noteq> 0" "iref v' I r = iref v I r" by auto
      show ?thesis
      proof (cases "r' = q")
        case True
        with a upd [of r'] r have "iref v I r = p" by auto
        with al [of r] r a fresh show ?thesis by auto
      next
        case False
        with a upd [of r'] r inj [of r r'] show ?thesis by auto
      qed
    qed
  qed
qed

lemma read_word:
  "word_of_bytes (take 4 (drop (nat (int k)) d)) = word_at d k"
  by (simp add: word_at_def)

lemma home_word:
  assumes "top_pos q \<or> home v I q \<noteq> 0"
  shows "word_at (v (home v I q)) (hofs q) = iref v I q"
proof (cases "top_pos q")
  case True
  then show ?thesis by (simp add: home_def iref_top)
next
  case False
  with assms show ?thesis by (simp add: home_def iref_par)
qed

lemma walk_ok_cache: "walk_ok E X st I \<Longrightarrow> cache_ok X st"
  by (simp add: walk_ok_def)

lemma walk_ok_tree: "walk_ok E X st I \<Longrightarrow> tree_ok (cache_view st) I (free_map st)"
  by (simp add: walk_ok_def)

lemma walk_ok_stable:
  "walk_ok E X st I \<Longrightarrow> index_sector (cache_view st) I s \<Longrightarrow> s \<notin> E \<Longrightarrow> s \<notin> X"
  by (auto simp: walk_ok_def)

text \<open>A walk step on a slot that is not 0: the slot's sector is returned, nothing changes
  but the order of the cache and what it holds.\<close>

lemma modify_hit:
  assumes w: "walk_ok E X st I" and q: "valid_pos q"
    and hq: "top_pos q \<or> home (cache_view st) I q \<noteq> 0"
    and nz: "iref (cache_view st) I q \<noteq> 0"
    and E: "E \<subseteq> {home (cache_view st) I q}"
  obtains st' where
    "MODIFY_CACHE st (home (cache_view st) I q) (int (hofs q)) = Some (iref (cache_view st) I q, st')"
    "walk_ok {} X st' I" "free_map st' = free_map st"
    "\<And>s. s \<notin> X \<or> s \<in> cached st' \<Longrightarrow> cache_view st' s = cache_view st s"
    "\<And>q'. valid_pos q' \<Longrightarrow> iref (cache_view st') I q' = iref (cache_view st) I q'"
proof -
  let ?v = "cache_view st"
  define h where "h = home ?v I q"
  from w have ok: "cache_ok X st" and tree: "tree_ok ?v I (free_map st)"
    and ez: "\<And>e. e \<in> E \<Longrightarrow> cache_view st e = zero_sector"
    and ca: "cached st \<subseteq> {s. allocated (free_map st) s}"
    by (auto simp: walk_ok_def)
  have hw: "word_at (?v h) (hofs q) = iref ?v I q" unfolding h_def using hq by (rule home_word)
  have "h \<notin> E"
  proof
    assume "h \<in> E"
    from ez [OF this] hw nz show False by simp
  qed
  with E have E0: "E = {}" by (auto simp: h_def)
  have hidx: "index_sector ?v I h" unfolding h_def using q hq by (rule home_index)
  have off: "0 \<le> int (hofs q)" "int (hofs q) + int 4 \<le> int DISK_SECTOR_SIZE"
    using hofs_bound [OF q] by simp_all
  obtain st' where rd: "cache_read st h (int (hofs q)) 4 = Some (take 4 (drop (nat (int (hofs q))) (?v h)), st')"
    and ok': "cache_ok X st'" and fm: "free_map st' = free_map st"
    and sub: "cached st' \<subseteq> insert h (cached st)"
    and vs: "\<And>s'. s' \<notin> X \<or> s' \<in> cached st' \<Longrightarrow> cache_view st' s' = cache_view st s'"
    by (rule cache_read_ok [OF ok off, of h]) blast
  have vidx: "cache_view st' s = ?v s" if "index_sector ?v I s" for s
    using vs [of s] walk_ok_stable [OF w that] E0 by simp
  have ir: "iref (cache_view st') I q' = iref ?v I q'" if "valid_pos q'" for q'
    using vidx that by (rule iref_same)
  have m: "MODIFY_CACHE st h (int (hofs q)) = Some (iref ?v I q, st')"
    using rd hw [unfolded word_at_def] nz by (simp add: MODIFY_CACHE_def)
  have w': "walk_ok {} X st' I"
    unfolding walk_ok_def
  proof (intro conjI allI impI ballI)
    show "cache_ok X st'" by (rule ok')
    show "tree_ok (cache_view st') I (free_map st')"
      using tree ir by (simp add: fm tree_ok_cong [of "cache_view st'" I ?v])
    show "I \<notin> {}" by simp
    show "cached st' \<subseteq> {s. allocated (free_map st') s}"
      using sub ca index_sector_allocated [OF tree hidx] by (auto simp: fm)
  next
    fix s assume "index_sector (cache_view st') I s"
    then have "index_sector ?v I s" using ir by (simp add: index_sector_cong [of "cache_view st'" I ?v])
    from walk_ok_stable [OF w this] E0 show "s \<notin> X \<or> s \<in> {}" by simp
  qed simp_all
  from m w' fm vs ir show ?thesis unfolding h_def by (rule that)
qed

text \<open>A walk step on a slot that is 0 when the free-map is full: the \<^verbatim>\<open>ASSERT\<close> fails.\<close>

lemma modify_fail:
  assumes w: "walk_ok E X st I" and q: "valid_pos q"
    and hq: "top_pos q \<or> home (cache_view st) I q \<noteq> 0"
    and z: "iref (cache_view st) I q = 0"
    and al: "free_map_allocate (free_map st) = None"
  shows "MODIFY_CACHE st (home (cache_view st) I q) (int (hofs q)) = None"
proof -
  let ?v = "cache_view st"
  define h where "h = home ?v I q"
  from w have ok: "cache_ok X st" by (rule walk_ok_cache)
  have hw: "word_at (?v h) (hofs q) = iref ?v I q" unfolding h_def using hq by (rule home_word)
  have off: "0 \<le> int (hofs q)" "int (hofs q) + int 4 \<le> int DISK_SECTOR_SIZE"
    using hofs_bound [OF q] by simp_all
  obtain st' where rd: "cache_read st h (int (hofs q)) 4 = Some (take 4 (drop (nat (int (hofs q))) (?v h)), st')"
    and fm: "free_map st' = free_map st"
    by (rule cache_read_ok [OF ok off, of h]) blast
  show ?thesis
    using rd hw [unfolded word_at_def] z al fm by (simp add: MODIFY_CACHE_def h_def [symmetric])
qed


text \<open>A walk step on a slot that is 0 when the free-map grants sector \<open>p\<close>.\<close>

lemma modify_alloc:
  assumes w: "walk_ok E X st I" and q: "valid_pos q"
    and hq: "top_pos q \<or> home (cache_view st) I q \<noteq> 0"
    and z: "iref (cache_view st) I q = 0"
    and E: "E \<subseteq> {home (cache_view st) I q}"
    and al: "free_map_allocate (free_map st) = Some (p, fm')"
  obtains st' where
    "MODIFY_CACHE st (home (cache_view st) I q) (int (hofs q)) = Some (p, st')"
    "walk_ok {p} (insert p (X - {home (cache_view st) I q})) st' I" "free_map st' = fm'"
    "\<And>q'. valid_pos q' \<Longrightarrow> iref (cache_view st') I q' = (if q' = q then p else iref (cache_view st) I q')"
    "\<And>s. s \<noteq> home (cache_view st) I q \<Longrightarrow> s \<noteq> p \<Longrightarrow> s \<notin> X \<or> s \<in> cached st' \<Longrightarrow>
       cache_view st' s = cache_view st s"
    "cache_view st' (home (cache_view st) I q)
       = patch (cache_view st (home (cache_view st) I q)) (hofs q) (bytes_of_word p)"
    "p \<noteq> 0" "\<not> allocated (free_map st) p"
proof -
  let ?v = "cache_view st"
  define h where "h = home ?v I q"
  from w have ok: "cache_ok X st" and tree: "tree_ok ?v I (free_map st)"
    and ez: "\<And>e. e \<in> E \<Longrightarrow> e \<in> cached st \<and> cache_view st e = zero_sector"
    and ca: "cached st \<subseteq> {s. allocated (free_map st) s}"
    by (auto simp: walk_ok_def)
  from tree have flen: "length (free_map st) \<le> 2 ^ 32" and a0: "allocated (free_map st) 0"
    and aI: "allocated (free_map st) I"
    by (simp_all add: tree_ok_def)
  note fa = free_map_allocate_Some [OF al flen]
  have p0: "p \<noteq> 0" using a0 fa(1) by auto
  have hw: "word_at (?v h) (hofs q) = iref ?v I q" unfolding h_def using hq by (rule home_word)
  have hidx: "index_sector ?v I h" unfolding h_def using q hq by (rule home_index)
  have ha: "allocated (free_map st) h" using tree hidx by (rule index_sector_allocated)
  have hp: "h \<noteq> p" using ha fa(1) by auto
  have off: "0 \<le> int (hofs q)" "int (hofs q) + int 4 \<le> int DISK_SECTOR_SIZE"
    using hofs_bound [OF q] by simp_all
  obtain st1 where rd: "cache_read st h (int (hofs q)) 4 = Some (take 4 (drop (nat (int (hofs q))) (?v h)), st1)"
    and ok1: "cache_ok X st1" and fm1: "free_map st1 = free_map st"
    and sub1: "cached st1 \<subseteq> insert h (cached st)"
    and vs1: "\<And>s'. s' \<notin> X \<or> s' \<in> cached st1 \<Longrightarrow> cache_view st1 s' = cache_view st s'"
    and hit1: "h \<in> cached st \<Longrightarrow> cache_view st1 = cache_view st \<and> cached st1 = cached st"
    and in1: "h \<in> cached st1"
    by (rule cache_read_ok [OF ok off, of h]) auto
  define st1' where "st1' = st1\<lparr>free_map := fm'\<rparr>"
  have ok1': "cache_ok X st1'" using ok1 by (simp add: st1'_def)
  have v1': "cache_view st1' = cache_view st1" "cached st1' = cached st1"
    by (simp_all add: st1'_def)
  obtain st2 where wr: "cache_write st1' h (bytes_of_word p) (int (hofs q)) 4 = Some st2"
    and ok2: "cache_ok (X - {h}) st2" and fm2: "free_map st2 = free_map st1'"
    and vh2: "cache_view st2 h = patch (cache_view st1' h) (nat (int (hofs q))) (take 4 (bytes_of_word p))"
    and hit2: "h \<in> cached st1' \<Longrightarrow> cached st2 = cached st1' \<and>
        (\<forall>s'. s' \<noteq> h \<longrightarrow> cache_view st2 s' = cache_view st1' s')"
    by (rule cache_write_ok [OF ok1' off, where buf = "bytes_of_word p" and s = h]) auto
  from hit2 in1 have c2: "cached st2 = cached st1"
    and vs2: "\<And>s'. s' \<noteq> h \<Longrightarrow> cache_view st2 s' = cache_view st1 s'"
    by (simp_all add: v1')
  have pn2: "p \<notin> cached st2" using c2 sub1 ca ha fa(1) by auto
  obtain st3 where cr: "cache_create st2 p = Some st3"
    and ok3: "cache_ok (insert p (X - {h})) st3" and fm3: "free_map st3 = free_map st2"
    and sub3: "cached st3 \<subseteq> insert p (cached st2)" and in3: "p \<in> cached st3"
    and vp3: "cache_view st3 p = zero_sector"
    and vs3: "\<And>s'. s' \<noteq> p \<Longrightarrow> s' \<notin> X - {h} \<or> s' \<in> cached st3 \<Longrightarrow> cache_view st3 s' = cache_view st2 s'"
    by (rule cache_create_ok [OF ok2 pn2]) blast
  let ?v3 = "cache_view st3"
  have fm3': "free_map st3 = fm'" by (simp add: fm3 fm2 st1'_def)
  have m: "MODIFY_CACHE st h (int (hofs q)) = Some (p, st3)"
    using rd hw [unfolded word_at_def] z al fm1 wr cr
    by (simp add: MODIFY_CACHE_def st1'_def)
  have vh1: "cache_view st1 h = ?v h" using vs1 [of h] in1 by simp
  have vh3: "?v3 h = patch (?v h) (hofs q) (bytes_of_word p)"
    using vs3 [of h] hp vh2 vh1 by (simp add: v1')
  have vo3: "?v3 s = ?v s" if s: "s \<noteq> h" "s \<noteq> p" "s \<notin> X \<or> s \<in> cached st3" for s
  proof -
    from s have "cache_view st3 s = cache_view st2 s" by (intro vs3) auto
    also have "\<dots> = cache_view st1 s" using s(1) by (rule vs2)
    also have "\<dots> = ?v s"
    proof (rule vs1)
      from s(3) sub3 s(2) c2 show "s \<notin> X \<or> s \<in> cached st1" by auto
    qed
    finally show ?thesis .
  qed
  have hE: "s \<notin> X" if "index_sector ?v I s" "s \<noteq> h" for s
    using walk_ok_stable [OF w that(1)] E that(2) by (auto simp: h_def)
  have vidx: "?v3 s = ?v s" if "index_sector ?v I s" "s \<noteq> h" for s
  proof (rule vo3 [OF that(2)])
    from index_sector_allocated [OF tree that(1)] fa(1) show "s \<noteq> p" by auto
    from hE [OF that] show "s \<notin> X \<or> s \<in> cached st3" by simp
  qed
  have len: "length (?v (home ?v I q)) = DISK_SECTOR_SIZE" using ok by (rule length_cache_view)
  have upd: "iref ?v3 I q' = (if q' = q then p else iref ?v I q')" if "valid_pos q'" for q'
    by (rule iref_update [OF tree q z hq fa(1) len vh3 [unfolded h_def] vp3 vidx [unfolded h_def] that])
  have tree3: "tree_ok ?v3 I fm'"
    by (rule tree_ok_update [OF tree upd fa(1) fa(4) fa(5)])
  have w3: "walk_ok {p} (insert p (X - {h})) st3 I"
    unfolding walk_ok_def
  proof (intro conjI allI impI ballI)
    show "cache_ok (insert p (X - {h})) st3" by (rule ok3)
    show "tree_ok ?v3 I (free_map st3)" using tree3 by (simp add: fm3')
    show "I \<notin> {p}" using aI fa(1) by auto
    show "cached st3 \<subseteq> {s. allocated (free_map st3) s}"
      using sub3 c2 sub1 ca ha fa(4) by (auto simp: fm3')
  next
    fix s assume "index_sector ?v3 I s"
    then consider "s = I" | r where "s \<noteq> 0" "valid_pos r" "is_index r" "iref ?v3 I r = s"
      by (auto simp: index_sector_def)
    then show "s \<notin> insert p (X - {h}) \<or> s \<in> {p}"
    proof cases
      case 1
      then have "index_sector ?v I s" by (simp add: index_sector_def)
      with hE [of s] aI fa(1) 1 show ?thesis by auto
    next
      case 2
      show ?thesis
      proof (cases "r = q")
        case True
        with 2 upd [of r] show ?thesis by simp
      next
        case False
        with 2 upd [of r] have "index_sector ?v I s" by (auto simp: index_sector_def)
        with hE [of s] index_sector_allocated [OF tree this] fa(1) show ?thesis by auto
      qed
    qed
  next
    fix e assume "e \<in> {p}"
    then show "e \<in> cached st3" "cache_view st3 e = zero_sector" using in3 vp3 by simp_all
  qed
  show ?thesis
    using m w3 fm3' upd vo3 vh3 p0 fa(1) unfolding h_def by (rule that)
qed

text \<open>
  What a walk may change: the free-map and the index only grow, the sectors it makes
  index blocks of were free, and an allocated sector that holds no index word and is
  not in \<open>X\<close> keeps its contents and stays out of \<open>X\<close>; so does the length word.
\<close>

definition grows :: "disk_sector_t \<Rightarrow> disk_sector_t set \<Rightarrow> fs \<Rightarrow> disk_sector_t set \<Rightarrow> fs \<Rightarrow> bool" where
  "grows I X st X' st' \<longleftrightarrow>
     (\<forall>s. allocated (free_map st) s \<longrightarrow> allocated (free_map st') s) \<and>
     (\<forall>q. valid_pos q \<and> iref (cache_view st) I q \<noteq> 0 \<longrightarrow>
          iref (cache_view st') I q = iref (cache_view st) I q) \<and>
     (\<forall>s. index_sector (cache_view st') I s \<longrightarrow>
          index_sector (cache_view st) I s \<or> \<not> allocated (free_map st) s) \<and>
     (\<forall>s. allocated (free_map st) s \<and> s \<notin> X \<and> \<not> index_sector (cache_view st) I s \<longrightarrow>
          cache_view st' s = cache_view st s \<and> s \<notin> X') \<and>
     take 4 (cache_view st' I) = take 4 (cache_view st I)"

lemma grows_trans:
  assumes a: "grows I X st X1 st1" and b: "grows I X1 st1 X2 st2"
  shows "grows I X st X2 st2"
  unfolding grows_def
proof (intro conjI allI impI)
  fix s assume "allocated (free_map st) s"
  with a b show "allocated (free_map st2) s" by (simp add: grows_def)
next
  fix q assume "valid_pos q \<and> iref (cache_view st) I q \<noteq> 0"
  with a b show "iref (cache_view st2) I q = iref (cache_view st) I q" by (simp add: grows_def)
next
  fix s assume "index_sector (cache_view st2) I s"
  with b have "index_sector (cache_view st1) I s \<or> \<not> allocated (free_map st1) s"
    by (simp add: grows_def)
  with a show "index_sector (cache_view st) I s \<or> \<not> allocated (free_map st) s"
    unfolding grows_def by blast
next
  fix s assume s: "allocated (free_map st) s \<and> s \<notin> X \<and> \<not> index_sector (cache_view st) I s"
  with a have 1: "cache_view st1 s = cache_view st s" "s \<notin> X1" "allocated (free_map st1) s"
    by (simp_all add: grows_def)
  from a s have "\<not> index_sector (cache_view st1) I s" unfolding grows_def by blast
  with b 1 have "cache_view st2 s = cache_view st1 s \<and> s \<notin> X2" by (simp add: grows_def)
  with 1 show "cache_view st2 s = cache_view st s" "s \<notin> X2" by simp_all
next
  from a b show "take 4 (cache_view st2 I) = take 4 (cache_view st I)" by (simp add: grows_def)
qed

lemma grows_same:
  assumes "free_map st' = free_map st"
    and "\<And>s. s \<notin> X \<Longrightarrow> cache_view st' s = cache_view st s"
    and "\<And>q. valid_pos q \<Longrightarrow> iref (cache_view st') I q = iref (cache_view st) I q"
    and "I \<notin> X"
  shows "grows I X st X st'"
  unfolding grows_def using assms
  by (auto simp: index_sector_cong [of "cache_view st'" I "cache_view st"])

lemma take_patch_before: "k \<le> off \<Longrightarrow> off \<le> length d \<Longrightarrow> take k (patch d off bs) = take k d"
  by (simp add: patch_def)

text \<open>The outcome of a walk step at position \<open>q\<close>, whose slot is in sector \<open>h\<close>.\<close>

definition step_post ::
  "disk_sector_t \<Rightarrow> disk_sector_t set \<Rightarrow> fs \<Rightarrow> ipos \<Rightarrow> (disk_sector_t \<times> fs) option \<Rightarrow> bool" where
  "step_post I X st q res \<longleftrightarrow>
     (case res of
        None \<Rightarrow> iref (cache_view st) I q = 0 \<and> free_map_allocate (free_map st) = None
      | Some (r, st') \<Rightarrow>
          r \<noteq> 0 \<and> r = iref (cache_view st') I q \<and>
          (\<exists>E' X'. E' \<subseteq> {r} \<and> walk_ok E' X' st' I \<and> grows I X st X' st'))"

lemma modify_step:
  assumes w: "walk_ok E X st I" and q: "valid_pos q"
    and hq: "top_pos q \<or> home (cache_view st) I q \<noteq> 0"
    and E: "E \<subseteq> {home (cache_view st) I q}"
  shows "step_post I X st q (MODIFY_CACHE st (home (cache_view st) I q) (int (hofs q)))"
proof (cases "iref (cache_view st) I q = 0")
  case nz: False
  obtain st' where m: "MODIFY_CACHE st (home (cache_view st) I q) (int (hofs q))
        = Some (iref (cache_view st) I q, st')"
    and w': "walk_ok {} X st' I" and fm: "free_map st' = free_map st"
    and vs: "\<And>s. s \<notin> X \<or> s \<in> cached st' \<Longrightarrow> cache_view st' s = cache_view st s"
    and ir: "\<And>q'. valid_pos q' \<Longrightarrow> iref (cache_view st') I q' = iref (cache_view st) I q'"
    by (rule modify_hit [OF w q hq nz E]) (rule that, assumption+)
  have "I \<notin> X" using w' by (auto simp: walk_ok_def index_sector_def)
  then have "grows I X st X st'" using fm vs ir by (intro grows_same) auto
  with m w' nz ir [OF q] show ?thesis unfolding step_post_def by auto
next
  case z: True
  show ?thesis
  proof (cases "free_map_allocate (free_map st)")
    case None
    from modify_fail [OF w q hq z None] z None show ?thesis by (simp add: step_post_def)
  next
    case (Some a)
    obtain p fm' where al: "free_map_allocate (free_map st) = Some (p, fm')"
      using Some by (cases a) simp
    let ?h = "home (cache_view st) I q"
    obtain st' where m: "MODIFY_CACHE st ?h (int (hofs q)) = Some (p, st')"
      and w': "walk_ok {p} (insert p (X - {?h})) st' I" and fm: "free_map st' = fm'"
      and upd: "\<And>q'. valid_pos q' \<Longrightarrow>
          iref (cache_view st') I q' = (if q' = q then p else iref (cache_view st) I q')"
      and vo: "\<And>s. s \<noteq> ?h \<Longrightarrow> s \<noteq> p \<Longrightarrow> s \<notin> X \<or> s \<in> cached st' \<Longrightarrow>
          cache_view st' s = cache_view st s"
      and vh: "cache_view st' ?h = patch (cache_view st ?h) (hofs q) (bytes_of_word p)"
      and p0: "p \<noteq> 0" and fresh: "\<not> allocated (free_map st) p"
      by (rule modify_alloc [OF w q hq z E al]) (rule that, assumption+)
    from w have tree: "tree_ok (cache_view st) I (free_map st)" and ok: "cache_ok X st"
      by (simp_all add: walk_ok_def)
    from tree have flen: "length (free_map st) \<le> 2 ^ 32" by (simp add: tree_ok_def)
    note fa = free_map_allocate_Some [OF al flen]
    have hidx: "index_sector (cache_view st) I ?h" using q hq by (rule home_index)
    have g: "grows I X st (insert p (X - {?h})) st'"
      unfolding grows_def
    proof (intro conjI allI impI)
      fix s assume "allocated (free_map st) s"
      then show "allocated (free_map st') s" by (simp add: fm fa(4))
    next
      fix r assume "valid_pos r \<and> iref (cache_view st) I r \<noteq> 0"
      with upd [of r] z show "iref (cache_view st') I r = iref (cache_view st) I r" by auto
    next
      fix s assume "index_sector (cache_view st') I s"
      then consider "s = I" | r where "s \<noteq> 0" "valid_pos r" "is_index r" "iref (cache_view st') I r = s"
        by (auto simp: index_sector_def)
      then show "index_sector (cache_view st) I s \<or> \<not> allocated (free_map st) s"
      proof cases
        case 1 then show ?thesis by (simp add: index_sector_def)
      next
        case 2
        with upd [of r] fresh show ?thesis by (cases "r = q") (auto simp: index_sector_def)
      qed
    next
      fix s assume s: "allocated (free_map st) s \<and> s \<notin> X \<and> \<not> index_sector (cache_view st) I s"
      with hidx fresh have "s \<noteq> ?h" "s \<noteq> p" by auto
      with vo [of s] s show "cache_view st' s = cache_view st s" "s \<notin> insert p (X - {?h})"
        by simp_all
    next
      show "take 4 (cache_view st' I) = take 4 (cache_view st I)"
      proof (cases "?h = I")
        case True
        have "top_pos q"
        proof (rule ccontr)
          assume nt: "\<not> top_pos q"
          with hq True have "iref (cache_view st) I (par q) = I" "iref (cache_view st) I (par q) \<noteq> 0"
            by (simp_all add: home_def)
          with tree valid_par [OF q nt] show False unfolding tree_ok_def by blast
        qed
        from hofs_top [OF this] hofs_bound [OF q] length_cache_view [OF ok, of I] show ?thesis
          using vh by (simp add: True take_patch_before)
      next
        case False
        have "I \<notin> X" using walk_ok_stable [OF w, of I] w by (auto simp: index_sector_def walk_ok_def)
        moreover have "I \<noteq> p" using tree fresh by (auto simp: tree_ok_def)
        ultimately show ?thesis using vo [of I] False by simp
      qed
    qed
    from m w' g p0 upd [OF q] show ?thesis unfolding step_post_def by auto
  qed
qed

section \<open>The index walk\<close>

text \<open>
  The walk of \<^verbatim>\<open>byte_to_sector\<close> is a chain of \<^verbatim>\<open>MODIFY_CACHE\<close> steps: one for a direct
  block, two through the indirect block, three through the double-indirect block.
\<close>

fun walk :: "fs \<Rightarrow> disk_sector_t \<Rightarrow> ipos list \<Rightarrow> (disk_sector_t \<times> fs) option" where
  "walk st s [] = Some (s, st)"
| "walk st s (q # qs) =
     (case MODIFY_CACHE st s (int (hofs q)) of
        None \<Rightarrow> None
      | Some (s', st') \<Rightarrow> walk st' s' qs)"

definition path :: "nat \<Rightarrow> ipos list" where
  "path b =
     (if b < 12 then [Direct b]
      else if b < 140 then [Ind, IndSlot (b - 12)]
      else [Dbl, DblSlot ((b - 140) div 128), L2Slot ((b - 140) div 128) ((b - 140) mod 128)])"

fun chain :: "ipos \<Rightarrow> ipos list \<Rightarrow> bool" where
  "chain q [] = True"
| "chain q (q' # qs) = (par q' = q \<and> \<not> top_pos q' \<and> valid_pos q' \<and> chain q' qs)"

lemma c_div_nonneg: "0 \<le> a \<Longrightarrow> 0 < b \<Longrightarrow> c_div a b = a div b"
  by (cases "a = 0") (simp_all add: c_div_def sgn_if)

lemma c_mod_nonneg: "0 \<le> a \<Longrightarrow> 0 < b \<Longrightarrow> c_mod a b = a mod b"
  by (simp add: c_mod_def c_div_nonneg minus_mult_div_eq_mod)

lemma byte_to_sector_walk:
  assumes "0 \<le> pos"
  shows "byte_to_sector st inode pos =
     (case cache_read st (isector inode) 0 4 of
        None \<Rightarrow> None
      | Some (bs, st1) \<Rightarrow>
          if pos < sint (word_of_bytes bs)
          then walk st1 (isector inode) (path (nat (pos div 512)))
          else Some (- 1, st1))"
proof -
  define b where "b = nat (pos div 512)"
  have num: "c_div pos (int DISK_SECTOR_SIZE) = int b"
    using assms by (simp add: c_div_nonneg DISK_SECTOR_SIZE_def b_def)
  have d: "b \<ge> 140 \<Longrightarrow> c_div (int b - 140) 128 = int ((b - 140) div 128)"
    "b \<ge> 140 \<Longrightarrow> c_mod (int b - 140) 128 = int ((b - 140) mod 128)"
    by (simp_all add: c_div_nonneg c_mod_nonneg zdiv_int zmod_int of_nat_diff)
  show ?thesis
    unfolding byte_to_sector_def b_def [symmetric] num
    by (auto simp: path_def Let_def DIRECT_BLOCK_def SINGLE_BLOCK_def DISK_SECTOR_SIZE_def
        OFS_DIRECT_def OFS_INDIRECT_def OFS_DOUBLE_def d of_nat_diff algebra_simps
        split: option.splits Option.bind_splits prod.splits)
qed

lemma path_chain:
  assumes "b < 16524"
  shows "\<exists>q qs. path b = q # qs \<and> top_pos q \<and> valid_pos q \<and> chain q qs \<and> last (q # qs) = block_pos b"
  using assms by (auto simp: path_def block_pos_def)

definition walk_post ::
  "disk_sector_t \<Rightarrow> disk_sector_t set \<Rightarrow> fs \<Rightarrow> ipos \<Rightarrow> (disk_sector_t \<times> fs) option \<Rightarrow> bool" where
  "walk_post I X st q res \<longleftrightarrow>
     (case res of
        None \<Rightarrow> True
      | Some (r, st') \<Rightarrow>
          r \<noteq> 0 \<and> r = iref (cache_view st') I q \<and>
          (\<exists>E' X'. E' \<subseteq> {r} \<and> walk_ok E' X' st' I \<and> grows I X st X' st'))"

lemma chain_valid_last: "valid_pos q \<Longrightarrow> chain q qs \<Longrightarrow> valid_pos (last (q # qs))"
  by (induction qs arbitrary: q) auto

lemma chain_nonzero:
  "chain q qs \<Longrightarrow> iref v I (last (q # qs)) \<noteq> 0 \<Longrightarrow> iref v I q \<noteq> 0"
proof (induction qs arbitrary: q)
  case Nil
  then show ?case by simp
next
  case (Cons q' qs)
  then have "iref v I q' \<noteq> 0" by simp
  with Cons.prems(1) iref_par [of q' v I] show ?case by (auto split: if_splits)
qed

lemma walk_post_trans:
  assumes "walk_post I X' st1 q res" "grows I X st X' st1"
  shows "walk_post I X st q res"
proof (cases res)
  case None
  then show ?thesis by (simp add: walk_post_def)
next
  case (Some a)
  obtain r st' where a: "a = (r, st')" by (cases a)
  from assms(1) Some a obtain E' X'' where "r \<noteq> 0" "r = iref (cache_view st') I q"
    "E' \<subseteq> {r}" "walk_ok E' X'' st' I" "grows I X' st1 X'' st'"
    by (auto simp: walk_post_def)
  moreover from grows_trans [OF assms(2) this(5)] have "grows I X st X'' st'" .
  ultimately show ?thesis using Some a unfolding walk_post_def by auto
qed

lemma walk_gen:
  assumes "walk_ok E X st I" "E \<subseteq> {s}" "valid_pos q" "home (cache_view st) I q = s"
    "top_pos q \<or> s \<noteq> 0" "chain q qs"
  shows "walk_post I X st (last (q # qs)) (walk st s (q # qs))"
  using assms
proof (induction qs arbitrary: st s q E X)
  case Nil
  from modify_step [OF Nil(1,3), unfolded Nil(4), OF Nil(5,2)]
  show ?case by (auto simp: step_post_def walk_post_def split: option.splits)
next
  case (Cons q' qs)
  note sp = modify_step [OF Cons.prems(1,3), unfolded Cons.prems(4), OF Cons.prems(5,2)]
  show ?case
  proof (cases "MODIFY_CACHE st s (int (hofs q))")
    case None
    then show ?thesis by (simp add: walk_post_def)
  next
    case (Some a)
    obtain r st1 where a: "a = (r, st1)" by (cases a)
    from sp Some a obtain E' X' where r: "r \<noteq> 0" "r = iref (cache_view st1) I q"
      and E': "E' \<subseteq> {r}" and w1: "walk_ok E' X' st1 I" and g1: "grows I X st X' st1"
      by (auto simp: step_post_def)
    from Cons.prems(6) have c: "par q' = q" "\<not> top_pos q'" "valid_pos q'" "chain q' qs" by simp_all
    have h': "home (cache_view st1) I q' = r" using c r by (simp add: home_def)
    from Cons.IH [OF w1 E' c(3) h' _ c(4)] r
    have "walk_post I X' st1 (last (q' # qs)) (walk st1 r (q' # qs))" by simp
    then have "walk_post I X st (last (q' # qs)) (walk st1 r (q' # qs))"
      using g1 by (rule walk_post_trans)
    with Some a show ?thesis by simp
  qed
qed

text \<open>When no slot on the way is 0, the walk returns the block's sector and changes neither
  the free-map nor what the cache shows outside \<open>X\<close>.\<close>

lemma walk_hit:
  assumes "walk_ok {} X st I" "valid_pos q" "home (cache_view st) I q = s"
    "top_pos q \<or> s \<noteq> 0" "chain q qs" "iref (cache_view st) I (last (q # qs)) \<noteq> 0"
  shows "\<exists>st'. walk st s (q # qs) = Some (iref (cache_view st) I (last (q # qs)), st') \<and>
     walk_ok {} X st' I \<and> free_map st' = free_map st \<and>
     (\<forall>s'. s' \<notin> X \<longrightarrow> cache_view st' s' = cache_view st s') \<and>
     (\<forall>q'. valid_pos q' \<longrightarrow> iref (cache_view st') I q' = iref (cache_view st) I q')"
  using assms
proof (induction qs arbitrary: st s q)
  case Nil
  then have nz: "iref (cache_view st) I q \<noteq> 0" by simp
  have hq: "top_pos q \<or> home (cache_view st) I q \<noteq> 0" using Nil(3,4) by simp
  have E: "{} \<subseteq> {home (cache_view st) I q}" by simp
  show ?case
    by (rule modify_hit [OF Nil(1,2) hq nz E]) (auto simp: Nil(3))
next
  case (Cons q' qs)
  from Cons.prems(5) have c: "par q' = q" "\<not> top_pos q'" "valid_pos q'" "chain q' qs" by simp_all
  from chain_nonzero [OF Cons.prems(5)] Cons.prems(6) have nz: "iref (cache_view st) I q \<noteq> 0" by simp
  have hq: "top_pos q \<or> home (cache_view st) I q \<noteq> 0" using Cons.prems(3,4) by simp
  have E: "{} \<subseteq> {home (cache_view st) I q}" by simp
  obtain st1 where m: "MODIFY_CACHE st s (int (hofs q)) = Some (iref (cache_view st) I q, st1)"
    and w1: "walk_ok {} X st1 I" and fm1: "free_map st1 = free_map st"
    and vs1: "\<And>s. s \<notin> X \<Longrightarrow> cache_view st1 s = cache_view st s"
    and ir1: "\<And>q'. valid_pos q' \<Longrightarrow> iref (cache_view st1) I q' = iref (cache_view st) I q'"
    by (rule modify_hit [OF Cons.prems(1,2) hq nz E]) (auto simp: Cons.prems(3))
  let ?r = "iref (cache_view st) I q"
  have h': "home (cache_view st1) I q' = ?r" using c ir1 [OF Cons.prems(2)] by (simp add: home_def)
  have l: "valid_pos (last (q' # qs))" using c by (intro chain_valid_last)
  have nz': "iref (cache_view st1) I (last (q' # qs)) \<noteq> 0"
    using Cons.prems(6) ir1 [OF l] by simp
  from Cons.IH [OF w1 c(3) h' _ c(4) nz'] nz
  obtain st' where "walk st1 ?r (q' # qs) = Some (iref (cache_view st1) I (last (q' # qs)), st')"
    "walk_ok {} X st' I" "free_map st' = free_map st1"
    "\<forall>s'. s' \<notin> X \<longrightarrow> cache_view st' s' = cache_view st1 s'"
    "\<forall>q'. valid_pos q' \<longrightarrow> iref (cache_view st') I q' = iref (cache_view st1) I q'"
    by auto
  with m fm1 vs1 ir1 l show ?case by auto
qed


definition inode_len :: "fs \<Rightarrow> disk_sector_t \<Rightarrow> int" where
  "inode_len st I = sint (word_at (cache_view st I) 0)"

lemma inode_ok_I: "inode_ok X st I \<Longrightarrow> I \<notin> X \<and> allocated (free_map st) I"
  by (auto simp: inode_ok_def walk_ok_def index_sector_def tree_ok_def)

text \<open>Reading an allocated sector keeps the state well formed.\<close>

lemma read_ok:
  assumes w: "inode_ok X st I" and a: "allocated (free_map st) s"
    and off: "0 \<le> off" "off + int n \<le> int DISK_SECTOR_SIZE"
  obtains st' where
    "cache_read st s off n = Some (take n (drop (nat off) (cache_view st s)), st')"
    "inode_ok X st' I" "free_map st' = free_map st"
    "\<And>s'. s' \<notin> X \<Longrightarrow> cache_view st' s' = cache_view st s'"
    "\<And>q. valid_pos q \<Longrightarrow> iref (cache_view st') I q = iref (cache_view st) I q"
proof -
  let ?v = "cache_view st"
  from w have ok: "cache_ok X st" and tree: "tree_ok ?v I (free_map st)"
    and st: "\<And>s. index_sector ?v I s \<Longrightarrow> s \<notin> X"
    and ca: "cached st \<subseteq> {s. allocated (free_map st) s}"
    by (auto simp: inode_ok_def walk_ok_def)
  obtain st' where rd: "cache_read st s off n = Some (take n (drop (nat off) (?v s)), st')"
    and ok': "cache_ok X st'" and fm: "free_map st' = free_map st"
    and sub: "cached st' \<subseteq> insert s (cached st)"
    and vs: "\<And>s'. s' \<notin> X \<or> s' \<in> cached st' \<Longrightarrow> cache_view st' s' = cache_view st s'"
    by (rule cache_read_ok [OF ok off, of s]) blast
  have ir: "iref (cache_view st') I q = iref ?v I q" if "valid_pos q" for q
  proof (rule iref_same [OF _ that])
    fix s' assume "index_sector ?v I s'"
    from st [OF this] show "cache_view st' s' = ?v s'" by (simp add: vs)
  qed
  have w': "inode_ok X st' I"
    unfolding inode_ok_def walk_ok_def
  proof (intro conjI allI impI ballI)
    show "cache_ok X st'" by (rule ok')
    show "tree_ok (cache_view st') I (free_map st')"
      using tree ir by (simp add: fm tree_ok_cong [of "cache_view st'" I ?v])
    show "cached st' \<subseteq> {s. allocated (free_map st') s}" using sub ca a by (auto simp: fm)
  next
    fix s' assume "index_sector (cache_view st') I s'"
    then have "index_sector ?v I s'" using ir by (simp add: index_sector_cong [of "cache_view st'" I ?v])
    from st [OF this] show "s' \<notin> X \<or> s' \<in> {}" by simp
  qed simp_all
  from rd w' fm vs ir show ?thesis by (intro that [of st']) auto
qed

lemma grows_refl_frame:
  assumes "inode_ok X st I" "free_map st' = free_map st"
    "\<And>s'. s' \<notin> X \<Longrightarrow> cache_view st' s' = cache_view st s'"
    "\<And>q. valid_pos q \<Longrightarrow> iref (cache_view st') I q = iref (cache_view st) I q"
  shows "grows I X st X st'"
  using assms inode_ok_I [OF assms(1)] by (intro grows_same) auto

lemma block_pos_valid: "b < 16524 \<Longrightarrow> valid_pos (block_pos b) \<and> \<not> is_index (block_pos b)"
  by (auto simp: block_pos_def)

lemma data_not_index:
  assumes tree: "tree_ok v I fm" and q: "valid_pos q" "\<not> is_index q" and nz: "iref v I q \<noteq> 0"
  shows "\<not> index_sector v I (iref v I q)"
proof
  assume "index_sector v I (iref v I q)"
  then consider "iref v I q = I" | r where "valid_pos r" "is_index r" "iref v I r = iref v I q"
    by (auto simp: index_sector_def)
  then show False
  proof cases
    case 1 with tree q nz show False unfolding tree_ok_def by blast
  next
    case 2
    with tree q nz have "q = r" unfolding tree_ok_def by metis
    with 2 q show False by simp
  qed
qed

lemma walk_ok_drop:
  assumes "walk_ok E X st I" "\<And>e. e \<in> E \<Longrightarrow> \<not> index_sector (cache_view st) I e"
  shows "inode_ok X st I"
  using assms unfolding inode_ok_def walk_ok_def by auto

text \<open>The outcome of \<^verbatim>\<open>byte_to_sector\<close> in a well-formed state.\<close>

definition bts_post ::
  "disk_sector_t \<Rightarrow> disk_sector_t set \<Rightarrow> fs \<Rightarrow> int \<Rightarrow> (disk_sector_t \<times> fs) option \<Rightarrow> bool" where
  "bts_post I X st pos res \<longleftrightarrow>
     (case res of
        None \<Rightarrow> True
      | Some (r, st') \<Rightarrow>
          r \<noteq> 0 \<and> r = iref (cache_view st') I (block_pos (nat (pos div 512))) \<and>
          (\<exists>X'. inode_ok X' st' I \<and> grows I X st X' st'))"

lemma bts_gen:
  assumes w: "inode_ok X st I" and I: "isector inode = I"
    and pos: "0 \<le> pos" "pos < inode_len st I" "pos div 512 < 16524"
  shows "bts_post I X st pos (byte_to_sector st inode pos)"
proof -
  define b where "b = nat (pos div 512)"
  have b: "b < 16524" using pos by (simp add: b_def)
  obtain st1 where rd: "cache_read st I 0 4 = Some (take 4 (drop (nat 0) (cache_view st I)), st1)"
    and w1: "inode_ok X st1 I" and fm1: "free_map st1 = free_map st"
    and vs1: "\<And>s'. s' \<notin> X \<Longrightarrow> cache_view st1 s' = cache_view st s'"
    and ir1: "\<And>q. valid_pos q \<Longrightarrow> iref (cache_view st1) I q = iref (cache_view st) I q"
    using inode_ok_I [OF w] by (auto intro: read_ok [OF w, of I 0 4] simp: DISK_SECTOR_SIZE_def)
  have g1: "grows I X st X st1" using w fm1 vs1 ir1 by (rule grows_refl_frame)
  from path_chain [OF b] obtain q qs where p: "path b = q # qs" "top_pos q" "valid_pos q"
    "chain q qs" "last (q # qs) = block_pos b" by auto
  have E: "{} \<subseteq> {I}" by simp
  have hI: "home (cache_view st1) I q = I" using p(2) by (simp add: home_def)
  have wp: "walk_post I X st1 (block_pos b) (walk st1 I (path b))"
    using walk_gen [OF w1 [unfolded inode_ok_def] E p(3) hI disjI1 [OF p(2)] p(4)]
    unfolding p(5) p(1) .
  have bts: "byte_to_sector st inode pos = walk st1 I (path b)"
    using rd pos(2) by (simp add: byte_to_sector_walk [OF pos(1)] I b_def inode_len_def word_at_def)
  show ?thesis
  proof (cases "walk st1 I (path b)")
    case None
    with bts show ?thesis by (simp add: bts_post_def)
  next
    case (Some a)
    obtain r st' where a: "a = (r, st')" by (cases a)
    from wp Some a obtain E' X' where r: "r \<noteq> 0" "r = iref (cache_view st') I (block_pos b)"
      and E': "E' \<subseteq> {r}" and w': "walk_ok E' X' st' I" and g: "grows I X st1 X' st'"
      by (auto simp: walk_post_def)
    have "\<not> index_sector (cache_view st') I r"
      using data_not_index [OF _ _ _ r(1) [unfolded r(2)]] w' block_pos_valid [OF b] r(2)
      by (auto simp: walk_ok_def)
    with E' have "inode_ok X' st' I" by (intro walk_ok_drop [OF w']) auto
    moreover have "grows I X st X' st'" using g1 g by (rule grows_trans)
    ultimately show ?thesis using bts Some a r by (auto simp: bts_post_def b_def)
  qed
qed

lemma bts_hit:
  assumes w: "inode_ok X st I" and I: "isector inode = I"
    and pos: "0 \<le> pos" "pos < inode_len st I" "pos div 512 < 16524"
    and nz: "iref (cache_view st) I (block_pos (nat (pos div 512))) \<noteq> 0"
  obtains st' where
    "byte_to_sector st inode pos = Some (iref (cache_view st) I (block_pos (nat (pos div 512))), st')"
    "inode_ok X st' I" "free_map st' = free_map st"
    "\<And>s'. s' \<notin> X \<Longrightarrow> cache_view st' s' = cache_view st s'"
    "\<And>q. valid_pos q \<Longrightarrow> iref (cache_view st') I q = iref (cache_view st) I q"
proof -
  define b where "b = nat (pos div 512)"
  have b: "b < 16524" using pos by (simp add: b_def)
  obtain st1 where rd: "cache_read st I 0 4 = Some (take 4 (drop (nat 0) (cache_view st I)), st1)"
    and w1: "inode_ok X st1 I" and fm1: "free_map st1 = free_map st"
    and vs1: "\<And>s'. s' \<notin> X \<Longrightarrow> cache_view st1 s' = cache_view st s'"
    and ir1: "\<And>q. valid_pos q \<Longrightarrow> iref (cache_view st1) I q = iref (cache_view st) I q"
    using inode_ok_I [OF w] by (auto intro: read_ok [OF w, of I 0 4] simp: DISK_SECTOR_SIZE_def)
  from path_chain [OF b] obtain q qs where p: "path b = q # qs" "top_pos q" "valid_pos q"
    "chain q qs" "last (q # qs) = block_pos b" by auto
  have hI: "home (cache_view st1) I q = I" using p(2) by (simp add: home_def)
  have vb: "valid_pos (block_pos b)" using block_pos_valid [OF b] by simp
  have nz1: "iref (cache_view st1) I (last (q # qs)) \<noteq> 0"
    unfolding p(5) using nz ir1 [OF vb] by (simp add: b_def)
  from walk_hit [OF w1 [unfolded inode_ok_def] p(3) hI disjI1 [OF p(2)] p(4) nz1, unfolded p(5), folded p(1)]
  obtain st' where wk: "walk st1 I (path b) = Some (iref (cache_view st1) I (block_pos b), st')"
    and w': "walk_ok {} X st' I" and fm': "free_map st' = free_map st1"
    and vs': "\<forall>s'. s' \<notin> X \<longrightarrow> cache_view st' s' = cache_view st1 s'"
    and ir': "\<forall>q'. valid_pos q' \<longrightarrow> iref (cache_view st') I q' = iref (cache_view st1) I q'"
    by blast
  have bts: "byte_to_sector st inode pos = walk st1 I (path b)"
    using rd pos(2) by (simp add: byte_to_sector_walk [OF pos(1)] I b_def inode_len_def word_at_def)
  show ?thesis
  proof (rule that [of st'])
    show "byte_to_sector st inode pos
        = Some (iref (cache_view st) I (block_pos (nat (pos div 512))), st')"
      using bts wk ir1 [OF vb] by (simp add: b_def)
    show "inode_ok X st' I" using w' by (simp add: inode_ok_def)
    show "free_map st' = free_map st" by (simp add: fm' fm1)
    show "cache_view st' s' = cache_view st s'" if "s' \<notin> X" for s' using that vs' vs1 by simp
    show "iref (cache_view st') I q = iref (cache_view st) I q" if "valid_pos q" for q
      using that ir' ir1 by simp
  qed
qed

lemma bts_eof:
  assumes w: "inode_ok X st I" and I: "isector inode = I"
    and pos: "0 \<le> pos" "\<not> pos < inode_len st I"
  obtains st' where
    "byte_to_sector st inode pos = Some (- 1, st')"
    "inode_ok X st' I" "free_map st' = free_map st"
    "\<And>s'. s' \<notin> X \<Longrightarrow> cache_view st' s' = cache_view st s'"
    "\<And>q. valid_pos q \<Longrightarrow> iref (cache_view st') I q = iref (cache_view st) I q"
proof -
  obtain st1 where rd: "cache_read st I 0 4 = Some (take 4 (drop (nat 0) (cache_view st I)), st1)"
    and w1: "inode_ok X st1 I" and fm1: "free_map st1 = free_map st"
    and vs1: "\<And>s'. s' \<notin> X \<Longrightarrow> cache_view st1 s' = cache_view st s'"
    and ir1: "\<And>q. valid_pos q \<Longrightarrow> iref (cache_view st1) I q = iref (cache_view st) I q"
    using inode_ok_I [OF w] by (auto intro: read_ok [OF w, of I 0 4] simp: DISK_SECTOR_SIZE_def)
  have "byte_to_sector st inode pos = Some (- 1, st1)"
    using rd pos(2) by (simp add: byte_to_sector_walk [OF pos(1)] I inode_len_def word_at_def)
  with w1 fm1 vs1 ir1 show ?thesis by (intro that [of st1]) auto
qed



lemma inode_length_ok:
  assumes w: "inode_ok X st I" and I: "isector inode = I"
  obtains st' where "inode_length st inode = Some (inode_len st I, st')"
    "inode_ok X st' I" "free_map st' = free_map st"
    "\<And>s'. s' \<notin> X \<Longrightarrow> cache_view st' s' = cache_view st s'"
    "\<And>q. valid_pos q \<Longrightarrow> iref (cache_view st') I q = iref (cache_view st) I q"
proof -
  obtain st1 where rd: "cache_read st I 0 4 = Some (take 4 (drop (nat 0) (cache_view st I)), st1)"
    and w1: "inode_ok X st1 I" and fm1: "free_map st1 = free_map st"
    and vs1: "\<And>s'. s' \<notin> X \<Longrightarrow> cache_view st1 s' = cache_view st s'"
    and ir1: "\<And>q. valid_pos q \<Longrightarrow> iref (cache_view st1) I q = iref (cache_view st) I q"
    using inode_ok_I [OF w] by (auto intro: read_ok [OF w, of I 0 4] simp: DISK_SECTOR_SIZE_def)
  have "inode_length st inode = Some (inode_len st I, st1)"
    using rd by (simp add: inode_length_def I inode_len_def word_at_def)
  with w1 fm1 vs1 ir1 show ?thesis by (intro that [of st1]) auto
qed

lemma inode_len_frame:
  "inode_ok X st I \<Longrightarrow> (\<And>s'. s' \<notin> X \<Longrightarrow> cache_view st' s' = cache_view st s') \<Longrightarrow>
     inode_len st' I = inode_len st I"
  using inode_ok_I [of X st I] by (simp add: inode_len_def)

lemma inode_len_grows: "grows I X st X' st' \<Longrightarrow> inode_len st' I = inode_len st I"
proof -
  assume "grows I X st X' st'"
  then have "take 4 (cache_view st' I) = take 4 (cache_view st I)" by (simp add: grows_def)
  then have "take 4 (drop 0 (cache_view st' I)) = take 4 (drop 0 (cache_view st I))" by simp
  then show ?thesis unfolding inode_len_def word_at_def by simp
qed

text \<open>The size of the chunk that one turn of the read and write loops transfers.\<close>

definition chunk_of :: "int \<Rightarrow> int \<Rightarrow> int \<Rightarrow> int" where
  "chunk_of len sz offset = min sz (min (len - offset) (512 - offset mod 512))"

lemma chunk_of_pos: "0 < sz \<Longrightarrow> offset < len \<Longrightarrow> 0 < chunk_of len sz offset"
  by (simp add: chunk_of_def pos_mod_bound [of 512 offset] less_imp_le)

lemma chunk_expr:
  "(if sz < (if a < b then a else b) then sz else (if a < b then a else b)) = min sz (min a (b :: int))"
  by (simp add: min_def)

lemma read_loop_unfold:
  assumes "0 < sz" "byte_to_sector st inode offset = Some (d, st1)"
    "inode_length st1 inode = Some (len, st2)" "0 \<le> offset"
  shows "inode_read_loop inode st sz offset buf n =
     (if chunk_of len sz offset \<le> 0 then Some (n, buf, st2)
      else case cache_read st2 d (offset mod 512) (nat (chunk_of len sz offset)) of
             None \<Rightarrow> None
           | Some (bs, st3) \<Rightarrow>
               inode_read_loop inode st3 (sz - chunk_of len sz offset) (offset + chunk_of len sz offset)
                 (buf @ bs) (n + chunk_of len sz offset))"
  using assms
  by (subst inode_read_loop.simps)
     (simp add: chunk_of_def Let_def c_mod_nonneg DISK_SECTOR_SIZE_def chunk_expr
        split del: if_split cong: if_cong option.case_cong prod.case_cong)

lemma read_loop_done: "\<not> 0 < sz \<Longrightarrow> inode_read_loop inode st sz offset buf n = Some (n, buf, st)"
  by (subst inode_read_loop.simps) simp

definition file_byte :: "(disk_sector_t \<Rightarrow> byte list) \<Rightarrow> disk_sector_t \<Rightarrow> nat \<Rightarrow> byte" where
  "file_byte v I pos = v (iref v I (block_pos (pos div 512))) ! (pos mod 512)"

definition MAX_FILE :: int where
  "MAX_FILE = 16524 * 512"

lemma take_drop_map_nth: "m + c \<le> length xs \<Longrightarrow> take c (drop m xs) = map ((!) xs) [m ..< m + c]"
proof (rule nth_equalityI)
  assume a: "m + c \<le> length xs"
  then show "length (take c (drop m xs)) = length (map ((!) xs) [m ..< m + c])" by simp
  fix i assume "i < length (take c (drop m xs))"
  with a show "take c (drop m xs) ! i = map ((!) xs) [m ..< m + c] ! i" by simp
qed

lemma chunk_bytes:
  assumes "off mod 512 + c \<le> 512" "length (v (iref v I (block_pos (off div 512)))) = 512"
  shows "take c (drop (off mod 512) (v (iref v I (block_pos (off div 512)))))
     = map (file_byte v I) [off ..< off + c]"
proof -
  let ?d = "v (iref v I (block_pos (off div 512)))"
  have "take c (drop (off mod 512) ?d) = map ((!) ?d) [off mod 512 ..< off mod 512 + c]"
    using assms by (intro take_drop_map_nth) simp
  also have "\<dots> = map (file_byte v I) [off ..< off + c]"
  proof (rule nth_equalityI)
    show "length (map ((!) ?d) [off mod 512 ..< off mod 512 + c])
        = length (map (file_byte v I) [off ..< off + c])" by simp
  next
    fix i assume "i < length (map ((!) ?d) [off mod 512 ..< off mod 512 + c])"
    then have i: "i < c" by simp
    have "off + i = 512 * (off div 512) + (off mod 512 + i)" by simp
    moreover have "off mod 512 + i < 512" using i assms(1) by simp
    ultimately have "(off + i) div 512 = off div 512" "(off + i) mod 512 = off mod 512 + i"
      by (metis div_mult_self2 div_less add_cancel_right_right zero_neq_numeral add.commute,
          metis mod_mult_self4 mod_less)
    with i show "map ((!) ?d) [off mod 512 ..< off mod 512 + c] ! i
        = map (file_byte v I) [off ..< off + c] ! i"
      by (simp add: file_byte_def)
  qed
  finally show ?thesis .
qed

lemma count_split:
  assumes "0 < sz" "offset < len"
  defines "c \<equiv> chunk_of len sz offset"
  shows "max 0 (min sz (len - offset)) = c + max 0 (min (sz - c) (len - (offset + c)))"
    "0 < c" "c \<le> sz" "offset mod 512 + c \<le> 512" "offset + c \<le> len"
  using assms pos_mod_bound [of 512 offset]
  by (auto simp: chunk_of_def min_def max_def)

lemma tree_allocated:
  "inode_ok X st I \<Longrightarrow> valid_pos q \<Longrightarrow> iref (cache_view st) I q \<noteq> 0 \<Longrightarrow>
     allocated (free_map st) (iref (cache_view st) I q)"
  by (auto simp: inode_ok_def walk_ok_def tree_ok_def)

lemma offset_block:
  assumes "0 \<le> offset" "offset < len" "len \<le> MAX_FILE"
  shows "offset div 512 < 16524" "nat (offset div 512) < 16524"
  using assms by (simp_all add: MAX_FILE_def)

text \<open>One turn of the read loop on a block that is allocated.\<close>

lemma read_iter_mapped:
  assumes w: "inode_ok X st I" and I: "isector inode = I"
    and pos: "0 \<le> offset" "offset < inode_len st I" "inode_len st I \<le> MAX_FILE" and sz: "0 < sz"
    and nz: "iref (cache_view st) I (block_pos (nat (offset div 512))) \<noteq> 0"
  obtains st3 bs where
    "inode_read_loop inode st sz offset buf n =
       inode_read_loop inode st3 (sz - chunk_of (inode_len st I) sz offset)
         (offset + chunk_of (inode_len st I) sz offset) (buf @ bs)
         (n + chunk_of (inode_len st I) sz offset)"
    "length bs = nat (chunk_of (inode_len st I) sz offset)"
    "iref (cache_view st) I (block_pos (nat (offset div 512))) \<notin> X \<Longrightarrow>
       bs = map (file_byte (cache_view st) I)
              [nat offset ..< nat offset + nat (chunk_of (inode_len st I) sz offset)]"
    "inode_ok X st3 I" "free_map st3 = free_map st"
    "\<And>s'. s' \<notin> X \<Longrightarrow> cache_view st3 s' = cache_view st s'"
    "\<And>q. valid_pos q \<Longrightarrow> iref (cache_view st3) I q = iref (cache_view st) I q"
proof -
  let ?v = "cache_view st"
  define len where "len = inode_len st I"
  define c where "c = chunk_of len sz offset"
  define b where "b = nat (offset div 512)"
  define d where "d = iref ?v I (block_pos b)"
  note cs = count_split [OF sz pos(2) [folded len_def], folded c_def]
  have blk: "offset div 512 < 16524" "b < 16524"
    using offset_block [OF pos] by (simp_all add: b_def)
  obtain st1 where bts: "byte_to_sector st inode offset = Some (d, st1)"
    and w1: "inode_ok X st1 I" and fm1: "free_map st1 = free_map st"
    and vs1: "\<And>s'. s' \<notin> X \<Longrightarrow> cache_view st1 s' = ?v s'"
    and ir1: "\<And>q. valid_pos q \<Longrightarrow> iref (cache_view st1) I q = iref ?v I q"
    unfolding d_def b_def by (rule bts_hit [OF w I pos(1,2) blk(1) nz]) blast
  obtain st2 where il: "inode_length st1 inode = Some (inode_len st1 I, st2)"
    and w2: "inode_ok X st2 I" and fm2: "free_map st2 = free_map st1"
    and vs2: "\<And>s'. s' \<notin> X \<Longrightarrow> cache_view st2 s' = cache_view st1 s'"
    and ir2: "\<And>q. valid_pos q \<Longrightarrow> iref (cache_view st2) I q = iref (cache_view st1) I q"
    by (rule inode_length_ok [OF w1 I]) blast
  have len1: "inode_len st1 I = len" unfolding len_def using w vs1 by (rule inode_len_frame)
  have vb: "valid_pos (block_pos b)" using block_pos_valid [OF blk(2)] by simp
  have d2: "iref (cache_view st2) I (block_pos b) = d" using ir2 [OF vb] ir1 [OF vb] by (simp add: d_def)
  have "allocated (free_map st2) (iref (cache_view st2) I (block_pos b))"
    using w2 vb d2 nz by (intro tree_allocated) (simp_all add: d_def b_def)
  then have ad: "allocated (free_map st2) d" by (simp add: d2)
  have off: "0 \<le> offset mod 512" "offset mod 512 + int (nat c) \<le> int DISK_SECTOR_SIZE"
    using cs(2,4) by (simp_all add: DISK_SECTOR_SIZE_def)
  obtain st3 where rd: "cache_read st2 d (offset mod 512) (nat c)
        = Some (take (nat c) (drop (nat (offset mod 512)) (cache_view st2 d)), st3)"
    and w3: "inode_ok X st3 I" and fm3: "free_map st3 = free_map st2"
    and vs3: "\<And>s'. s' \<notin> X \<Longrightarrow> cache_view st3 s' = cache_view st2 s'"
    and ir3: "\<And>q. valid_pos q \<Longrightarrow> iref (cache_view st3) I q = iref (cache_view st2) I q"
    by (rule read_ok [OF w2 ad off]) blast
  define bs where "bs = take (nat c) (drop (nat (offset mod 512)) (cache_view st2 d))"
  have ok2: "cache_ok X st2" using w2 by (simp add: inode_ok_def walk_ok_def)
  have l2: "length (cache_view st2 d) = 512"
    using length_cache_view [OF ok2, of d] by (simp add: DISK_SECTOR_SIZE_def)
  have lbs: "length bs = nat c" using cs(2,4) l2 by (simp add: bs_def)
  have eq: "inode_read_loop inode st sz offset buf n =
       inode_read_loop inode st3 (sz - c) (offset + c) (buf @ bs) (n + c)"
    using read_loop_unfold [OF sz bts il [unfolded len1] pos(1), of buf n] cs(2) rd
    by (simp add: c_def bs_def)
  have content: "bs = map (file_byte ?v I) [nat offset ..< nat offset + nat c]" if "d \<notin> X"
  proof -
    from that have vd: "cache_view st2 d = ?v d" using vs2 vs1 by simp
    have n1: "nat offset div 512 = b" "nat (offset mod 512) = nat offset mod 512"
      using pos(1) by (simp_all add: b_def nat_div_distrib nat_mod_distrib)
    have "int (nat offset mod 512 + nat c) \<le> 512"
      using cs(2,4) pos(1) by (simp add: zmod_int)
    then have "nat offset mod 512 + nat c \<le> 512" by linarith
    moreover have "length (?v (iref ?v I (block_pos (nat offset div 512)))) = 512"
      using l2 vd by (simp add: n1 d_def)
    ultimately have "take (nat c) (drop (nat offset mod 512) (?v (iref ?v I (block_pos (nat offset div 512)))))
        = map (file_byte ?v I) [nat offset ..< nat offset + nat c]"
      by (rule chunk_bytes)
    then show ?thesis by (simp add: bs_def vd [unfolded d_def] n1 d_def)
  qed
  show ?thesis
  proof (rule that [of st3 bs])
    show "inode_read_loop inode st sz offset buf n =
       inode_read_loop inode st3 (sz - chunk_of (inode_len st I) sz offset)
         (offset + chunk_of (inode_len st I) sz offset) (buf @ bs)
         (n + chunk_of (inode_len st I) sz offset)"
      using eq by (simp add: c_def len_def)
    show "length bs = nat (chunk_of (inode_len st I) sz offset)" using lbs by (simp add: c_def len_def)
    show "bs = map (file_byte ?v I)
              [nat offset ..< nat offset + nat (chunk_of (inode_len st I) sz offset)]"
      if "iref ?v I (block_pos (nat (offset div 512))) \<notin> X"
      using content that by (simp add: c_def len_def d_def b_def)
    show "inode_ok X st3 I" by (rule w3)
    show "free_map st3 = free_map st" by (simp add: fm3 fm2 fm1)
    show "cache_view st3 s' = ?v s'" if "s' \<notin> X" for s' using that vs3 vs2 vs1 by simp
    show "iref (cache_view st3) I q = iref ?v I q" if "valid_pos q" for q
      using that ir3 ir2 ir1 by simp
  qed
qed

lemma upt_split: "[a ..< a + b] @ [a + b ..< a + (b + c)] = [a ..< a + (b + c :: nat)]"
  using upt_add_eq_append [of a "a + b" c] by (simp add: add.assoc)

lemma file_byte_frame:
  assumes "valid_pos (block_pos (pos div 512))"
    "\<And>q. valid_pos q \<Longrightarrow> iref v' I q = iref v I q"
    "\<And>s. s \<notin> X \<Longrightarrow> v' s = v s"
    "iref v I (block_pos (pos div 512)) \<notin> X"
  shows "file_byte v' I pos = file_byte v I pos"
  using assms by (simp add: file_byte_def)

text \<open>
  The read loop on a range whose blocks below the length are all allocated: it returns,
  with the byte count of the claim, and changes neither the free-map nor the index.
\<close>

lemma read_loop_mapped:
  assumes "inode_ok X st I" "isector inode = I" "0 \<le> offset" "inode_len st I \<le> MAX_FILE"
    "\<And>pos. offset \<le> pos \<Longrightarrow> pos < offset + sz \<Longrightarrow> pos < inode_len st I \<Longrightarrow>
        iref (cache_view st) I (block_pos (nat (pos div 512))) \<noteq> 0"
  shows "\<exists>bs st'. inode_read_loop inode st sz offset buf n
        = Some (n + max 0 (min sz (inode_len st I - offset)), buf @ bs, st') \<and>
      int (length bs) = max 0 (min sz (inode_len st I - offset)) \<and>
      ((\<forall>pos. offset \<le> pos \<and> pos < offset + sz \<and> pos < inode_len st I \<longrightarrow>
           iref (cache_view st) I (block_pos (nat (pos div 512))) \<notin> X) \<longrightarrow>
         bs = map (file_byte (cache_view st) I) [nat offset ..< nat offset + length bs]) \<and>
      inode_ok X st' I \<and> free_map st' = free_map st \<and>
      (\<forall>s'. s' \<notin> X \<longrightarrow> cache_view st' s' = cache_view st s') \<and>
      (\<forall>q. valid_pos q \<longrightarrow> iref (cache_view st') I q = iref (cache_view st) I q)"
  using assms
proof (induction "nat sz" arbitrary: sz st offset buf n rule: less_induct)
  case less
  note w = less.prems(1) and I = less.prems(2) and o0 = less.prems(3) and mx = less.prems(4)
    and mapped = less.prems(5)
  let ?v = "cache_view st"
  define len where "len = inode_len st I"
  show ?case
  proof (cases "0 < sz")
    case False
    then have "max 0 (min sz (inode_len st I - offset)) = 0" by simp
    with False w show ?thesis by (simp add: read_loop_done [OF False])
  next
    case sz: True
    show ?thesis
    proof (cases "offset < len")
      case False
      obtain st1 where bts: "byte_to_sector st inode offset = Some (- 1, st1)"
        and w1: "inode_ok X st1 I" and fm1: "free_map st1 = free_map st"
        and vs1: "\<And>s'. s' \<notin> X \<Longrightarrow> cache_view st1 s' = ?v s'"
        and ir1: "\<And>q. valid_pos q \<Longrightarrow> iref (cache_view st1) I q = iref ?v I q"
        using False by (auto intro: bts_eof [OF w I o0] simp: len_def)
      obtain st2 where il: "inode_length st1 inode = Some (inode_len st1 I, st2)"
        and w2: "inode_ok X st2 I" and fm2: "free_map st2 = free_map st1"
        and vs2: "\<And>s'. s' \<notin> X \<Longrightarrow> cache_view st2 s' = cache_view st1 s'"
        and ir2: "\<And>q. valid_pos q \<Longrightarrow> iref (cache_view st2) I q = iref (cache_view st1) I q"
        by (rule inode_length_ok [OF w1 I]) blast
      have len1: "inode_len st1 I = len" unfolding len_def using w vs1 by (rule inode_len_frame)
      have c0: "chunk_of len sz offset \<le> 0" using False by (simp add: chunk_of_def)
      have "inode_read_loop inode st sz offset buf n = Some (n, buf, st2)"
        using read_loop_unfold [OF sz bts il [unfolded len1] o0, of buf n] c0 by simp
      moreover have "max 0 (min sz (inode_len st I - offset)) = 0" using False by (simp add: len_def)
      ultimately show ?thesis using w2 fm2 fm1 vs2 vs1 ir2 ir1 by simp
    next
      case lt: True
      define c where "c = chunk_of len sz offset"
      note cs = count_split [OF sz lt, folded c_def]
      have nz: "iref ?v I (block_pos (nat (offset div 512))) \<noteq> 0"
        using mapped [of offset] sz lt by (simp add: len_def)
      obtain st3 bs1 where eq: "inode_read_loop inode st sz offset buf n =
            inode_read_loop inode st3 (sz - c) (offset + c) (buf @ bs1) (n + c)"
        and l1: "length bs1 = nat c"
        and b1: "iref ?v I (block_pos (nat (offset div 512))) \<notin> X \<Longrightarrow>
            bs1 = map (file_byte ?v I) [nat offset ..< nat offset + nat c]"
        and w3: "inode_ok X st3 I" and fm3: "free_map st3 = free_map st"
        and vs3: "\<And>s'. s' \<notin> X \<Longrightarrow> cache_view st3 s' = ?v s'"
        and ir3: "\<And>q. valid_pos q \<Longrightarrow> iref (cache_view st3) I q = iref ?v I q"
        unfolding c_def len_def
        by (rule read_iter_mapped [OF w I o0 lt [unfolded len_def] mx sz nz, of buf n]) blast
      have len3: "inode_len st3 I = len" unfolding len_def using w vs3 by (rule inode_len_frame)
      have vpos: "valid_pos (block_pos (nat (pos div 512)))" if "0 \<le> pos" "pos < len" for pos
        using offset_block(2) [OF that mx [folded len_def]] block_pos_valid by simp
      have m3: "iref (cache_view st3) I (block_pos (nat (pos div 512))) \<noteq> 0"
        if "offset + c \<le> pos" "pos < offset + c + (sz - c)" "pos < inode_len st3 I" for pos
        using mapped [of pos] that cs(2) o0 ir3 [OF vpos [of pos]] by (simp add: len3 len_def)
      have "nat (sz - c) < nat sz" using cs(2) sz by simp
      have o3: "0 \<le> offset + c" using o0 cs(2) by simp
      have mx3: "inode_len st3 I \<le> MAX_FILE" using mx by (simp add: len3 len_def)
      have "\<exists>bs st'. inode_read_loop inode st3 (sz - c) (offset + c) (buf @ bs1) (n + c)
        = Some (n + c + max 0 (min (sz - c) (inode_len st3 I - (offset + c))), (buf @ bs1) @ bs, st') \<and>
        int (length bs) = max 0 (min (sz - c) (inode_len st3 I - (offset + c))) \<and>
        ((\<forall>pos. offset + c \<le> pos \<and> pos < offset + c + (sz - c) \<and> pos < inode_len st3 I \<longrightarrow>
           iref (cache_view st3) I (block_pos (nat (pos div 512))) \<notin> X) \<longrightarrow>
         bs = map (file_byte (cache_view st3) I) [nat (offset + c) ..< nat (offset + c) + length bs]) \<and>
        inode_ok X st' I \<and> free_map st' = free_map st3 \<and>
        (\<forall>s'. s' \<notin> X \<longrightarrow> cache_view st' s' = cache_view st3 s') \<and>
        (\<forall>q. valid_pos q \<longrightarrow> iref (cache_view st') I q = iref (cache_view st3) I q)"
        using \<open>nat (sz - c) < nat sz\<close> w3 I o3 mx3 m3 by (rule less.hyps)
      then obtain bs2 st' where r: "inode_read_loop inode st3 (sz - c) (offset + c) (buf @ bs1) (n + c)
            = Some (n + c + max 0 (min (sz - c) (len - (offset + c))), (buf @ bs1) @ bs2, st')"
        and l2: "int (length bs2) = max 0 (min (sz - c) (len - (offset + c)))"
        and b2: "(\<forall>pos. offset + c \<le> pos \<and> pos < offset + c + (sz - c) \<and> pos < len \<longrightarrow>
               iref (cache_view st3) I (block_pos (nat (pos div 512))) \<notin> X) \<longrightarrow>
             bs2 = map (file_byte (cache_view st3) I)
                     [nat (offset + c) ..< nat (offset + c) + length bs2]"
        and w': "inode_ok X st' I" and fm': "free_map st' = free_map st3"
        and vs': "\<forall>s'. s' \<notin> X \<longrightarrow> cache_view st' s' = cache_view st3 s'"
        and ir': "\<forall>q. valid_pos q \<longrightarrow> iref (cache_view st') I q = iref (cache_view st3) I q"
        unfolding len3 by auto
      have cnt: "max 0 (min sz (len - offset)) = c + max 0 (min (sz - c) (len - (offset + c)))"
        by (rule cs(1))
      have lb: "int (length (bs1 @ bs2)) = max 0 (min sz (len - offset))"
        using l1 l2 cs(2) cnt by simp
      have content: "bs1 @ bs2 = map (file_byte ?v I) [nat offset ..< nat offset + length (bs1 @ bs2)]"
        if nx: "\<forall>pos. offset \<le> pos \<and> pos < offset + sz \<and> pos < len \<longrightarrow>
           iref ?v I (block_pos (nat (pos div 512))) \<notin> X"
      proof -
        have e1: "bs1 = map (file_byte ?v I) [nat offset ..< nat offset + nat c]"
          using nx sz lt o0 by (intro b1) simp
        have nx3: "iref (cache_view st3) I (block_pos (nat (pos div 512))) \<notin> X"
          if "offset + c \<le> pos" "pos < offset + c + (sz - c)" "pos < len" for pos
          using nx that cs(2) o0 ir3 [OF vpos [of pos]] by simp
        with b2 have e2: "bs2 = map (file_byte (cache_view st3) I)
                     [nat (offset + c) ..< nat (offset + c) + length bs2]" by blast
        have "map (file_byte (cache_view st3) I) [nat (offset + c) ..< nat (offset + c) + length bs2]
            = map (file_byte ?v I) [nat (offset + c) ..< nat (offset + c) + length bs2]"
        proof (rule map_cong [OF refl])
          fix p assume "p \<in> set [nat (offset + c) ..< nat (offset + c) + length bs2]"
          then have p: "offset + c \<le> int p" "int p < offset + c + int (length bs2)"
            using o0 cs(2) by auto
          with l2 cs(2) have p2: "int p < offset + sz" "int p < len" "offset \<le> int p" "0 \<le> int p"
            by auto
          have nd: "nat (int p div 512) = p div 512" by (simp add: nat_div_distrib)
          have "file_byte (cache_view st3) I p = file_byte ?v I p"
          proof (rule file_byte_frame [of _ _ _ _ X])
            show "valid_pos (block_pos (p div 512))"
              using vpos [OF p2(4,2)] unfolding nd .
            show "iref ?v I (block_pos (p div 512)) \<notin> X"
              using nx [rule_format, of "int p"] p2 unfolding nd by simp
          qed (simp_all add: ir3 vs3)
          then show "file_byte (cache_view st3) I p = file_byte ?v I p" .
        qed
        with e2 have e2': "bs2 = map (file_byte ?v I) [nat (offset + c) ..< nat (offset + c) + length bs2]"
          by simp
        have "nat (offset + c) = nat offset + nat c" using o0 cs(2) by (simp add: nat_add_distrib)
        with e1 e2' have "bs1 @ bs2 = map (file_byte ?v I) [nat offset ..< nat offset + nat c]
            @ map (file_byte ?v I) [nat offset + nat c ..< nat offset + nat c + length bs2]" by simp
        also have "\<dots> = map (file_byte ?v I) [nat offset ..< nat offset + (nat c + length bs2)]"
          unfolding map_append [symmetric] add.assoc upt_split ..
        finally show ?thesis using l1 by simp
      qed
      show ?thesis
        using eq r lb content w' fm' fm3 vs' vs3 ir' ir3 cnt
        by (intro exI [of _ "bs1 @ bs2"] exI [of _ st']) (simp add: len_def)
    qed
  qed
qed


lemma read_loop_abort:
  "0 < sz \<Longrightarrow> byte_to_sector st inode offset = None \<Longrightarrow>
     inode_read_loop inode st sz offset buf n = None"
  by (subst inode_read_loop.simps) simp

text \<open>The rest of a turn of the read loop, once \<^verbatim>\<open>byte_to_sector\<close> has returned a sector.\<close>

lemma read_iter_after:
  assumes bts: "byte_to_sector st inode offset = Some (d, st1)"
    and w1: "inode_ok X st1 I" and I: "isector inode = I"
    and pos: "0 \<le> offset" "offset < inode_len st1 I" "inode_len st1 I \<le> MAX_FILE" and sz: "0 < sz"
    and d: "d = iref (cache_view st1) I (block_pos (nat (offset div 512)))" "d \<noteq> 0"
  obtains st3 bs where
    "inode_read_loop inode st sz offset buf n =
       inode_read_loop inode st3 (sz - chunk_of (inode_len st1 I) sz offset)
         (offset + chunk_of (inode_len st1 I) sz offset) (buf @ bs)
         (n + chunk_of (inode_len st1 I) sz offset)"
    "length bs = nat (chunk_of (inode_len st1 I) sz offset)"
    "inode_ok X st3 I" "free_map st3 = free_map st1"
    "\<And>s'. s' \<notin> X \<Longrightarrow> cache_view st3 s' = cache_view st1 s'"
    "\<And>q. valid_pos q \<Longrightarrow> iref (cache_view st3) I q = iref (cache_view st1) I q"
proof -
  define len where "len = inode_len st1 I"
  define c where "c = chunk_of len sz offset"
  define b where "b = nat (offset div 512)"
  note cs = count_split [OF sz pos(2) [folded len_def], folded c_def]
  have blk: "offset div 512 < 16524" "b < 16524"
    using offset_block [OF pos] by (simp_all add: b_def)
  obtain st2 where il: "inode_length st1 inode = Some (len, st2)"
    and w2: "inode_ok X st2 I" and fm2: "free_map st2 = free_map st1"
    and vs2: "\<And>s'. s' \<notin> X \<Longrightarrow> cache_view st2 s' = cache_view st1 s'"
    and ir2: "\<And>q. valid_pos q \<Longrightarrow> iref (cache_view st2) I q = iref (cache_view st1) I q"
    unfolding len_def by (rule inode_length_ok [OF w1 I]) blast
  have vb: "valid_pos (block_pos b)" using block_pos_valid [OF blk(2)] by simp
  have d2: "iref (cache_view st2) I (block_pos b) = d" using ir2 [OF vb] d(1) by (simp add: b_def)
  have "allocated (free_map st2) (iref (cache_view st2) I (block_pos b))"
    using w2 vb d2 d(2) by (intro tree_allocated) simp_all
  then have ad: "allocated (free_map st2) d" by (simp add: d2)
  have off: "0 \<le> offset mod 512" "offset mod 512 + int (nat c) \<le> int DISK_SECTOR_SIZE"
    using cs(2,4) by (simp_all add: DISK_SECTOR_SIZE_def)
  obtain st3 where rd: "cache_read st2 d (offset mod 512) (nat c)
        = Some (take (nat c) (drop (nat (offset mod 512)) (cache_view st2 d)), st3)"
    and w3: "inode_ok X st3 I" and fm3: "free_map st3 = free_map st2"
    and vs3: "\<And>s'. s' \<notin> X \<Longrightarrow> cache_view st3 s' = cache_view st2 s'"
    and ir3: "\<And>q. valid_pos q \<Longrightarrow> iref (cache_view st3) I q = iref (cache_view st2) I q"
    by (rule read_ok [OF w2 ad off]) blast
  define bs where "bs = take (nat c) (drop (nat (offset mod 512)) (cache_view st2 d))"
  have ok2: "cache_ok X st2" using w2 by (simp add: inode_ok_def walk_ok_def)
  have l2: "length (cache_view st2 d) = 512"
    using length_cache_view [OF ok2, of d] by (simp add: DISK_SECTOR_SIZE_def)
  have lbs: "length bs = nat c" using cs(2,4) l2 by (simp add: bs_def)
  have eq: "inode_read_loop inode st sz offset buf n =
       inode_read_loop inode st3 (sz - c) (offset + c) (buf @ bs) (n + c)"
    using read_loop_unfold [OF sz bts il pos(1), of buf n] cs(2) rd
    by (simp add: c_def bs_def)
  show ?thesis
  proof (rule that [of st3 bs])
    show "inode_read_loop inode st sz offset buf n =
       inode_read_loop inode st3 (sz - chunk_of (inode_len st1 I) sz offset)
         (offset + chunk_of (inode_len st1 I) sz offset) (buf @ bs)
         (n + chunk_of (inode_len st1 I) sz offset)"
      using eq by (simp add: c_def len_def)
    show "length bs = nat (chunk_of (inode_len st1 I) sz offset)" using lbs by (simp add: c_def len_def)
    show "inode_ok X st3 I" by (rule w3)
    show "free_map st3 = free_map st1" by (simp add: fm3 fm2)
    show "cache_view st3 s' = cache_view st1 s'" if "s' \<notin> X" for s' using that vs3 vs2 by simp
    show "iref (cache_view st3) I q = iref (cache_view st1) I q" if "valid_pos q" for q
      using that ir3 ir2 by simp
  qed
qed

text \<open>
  The outcome of the read loop in a well-formed state, whatever the walk allocates: the
  byte count, the length of what was read, and a well-formed state in which the index
  has only grown.
\<close>

definition read_post ::
  "disk_sector_t \<Rightarrow> disk_sector_t set \<Rightarrow> fs \<Rightarrow> int \<Rightarrow> byte list \<Rightarrow> int \<Rightarrow>
     (int \<times> byte list \<times> fs) option \<Rightarrow> bool" where
  "read_post I X st cnt buf n res \<longleftrightarrow>
     (case res of
        None \<Rightarrow> True
      | Some (n', bs', st') \<Rightarrow>
          n' = n + cnt \<and> int (length bs') = int (length buf) + cnt \<and> take (length buf) bs' = buf \<and>
          (\<exists>X'. inode_ok X' st' I \<and> grows I X st X' st'))"

lemma read_loop_gen:
  assumes "inode_ok X st I" "isector inode = I" "0 \<le> offset" "inode_len st I \<le> MAX_FILE"
  shows "read_post I X st (max 0 (min sz (inode_len st I - offset))) buf n
           (inode_read_loop inode st sz offset buf n)"
  using assms
proof (induction "nat sz" arbitrary: sz st offset buf n X rule: less_induct)
  case less
  note w = less.prems(1) and I = less.prems(2) and o0 = less.prems(3) and mx = less.prems(4)
  define len where "len = inode_len st I"
  have g0: "grows I X st X st" using w by (intro grows_refl_frame) simp_all
  show ?case
  proof (cases "0 < sz")
    case False
    then have "max 0 (min sz (inode_len st I - offset)) = 0" by simp
    with False w g0 show ?thesis by (auto simp: read_loop_done [OF False] read_post_def)
  next
    case sz: True
    show ?thesis
    proof (cases "offset < len")
      case False
      obtain st1 where bts: "byte_to_sector st inode offset = Some (- 1, st1)"
        and w1: "inode_ok X st1 I" and fm1: "free_map st1 = free_map st"
        and vs1: "\<And>s'. s' \<notin> X \<Longrightarrow> cache_view st1 s' = cache_view st s'"
        and ir1: "\<And>q. valid_pos q \<Longrightarrow> iref (cache_view st1) I q = iref (cache_view st) I q"
        using False by (auto intro: bts_eof [OF w I o0] simp: len_def)
      obtain st2 where il: "inode_length st1 inode = Some (inode_len st1 I, st2)"
        and w2: "inode_ok X st2 I" and fm2: "free_map st2 = free_map st1"
        and vs2: "\<And>s'. s' \<notin> X \<Longrightarrow> cache_view st2 s' = cache_view st1 s'"
        and ir2: "\<And>q. valid_pos q \<Longrightarrow> iref (cache_view st2) I q = iref (cache_view st1) I q"
        by (rule inode_length_ok [OF w1 I]) blast
      have len1: "inode_len st1 I = len" unfolding len_def using w vs1 by (rule inode_len_frame)
      have c0: "chunk_of len sz offset \<le> 0" using False by (simp add: chunk_of_def)
      have r: "inode_read_loop inode st sz offset buf n = Some (n, buf, st2)"
        using read_loop_unfold [OF sz bts il [unfolded len1] o0, of buf n] c0 by simp
      have z: "max 0 (min sz (inode_len st I - offset)) = 0" using False by (simp add: len_def)
      have "grows I X st X st2" using w by (rule grows_refl_frame) (simp_all add: fm2 fm1 vs2 vs1 ir2 ir1)
      with w2 show ?thesis unfolding r z read_post_def by auto
    next
      case lt: True
      define c where "c = chunk_of len sz offset"
      note cs = count_split [OF sz lt, folded c_def]
      have blk: "offset div 512 < 16524" using offset_block [OF o0 lt [unfolded len_def] mx] by simp
      show ?thesis
      proof (cases "byte_to_sector st inode offset")
        case None
        then show ?thesis by (simp add: read_loop_abort [OF sz] read_post_def)
      next
        case (Some a)
        obtain d st1 where a: "a = (d, st1)" by (cases a)
        from bts_gen [OF w I o0 lt [unfolded len_def] blk] Some a
        obtain X1 where d: "d \<noteq> 0" "d = iref (cache_view st1) I (block_pos (nat (offset div 512)))"
          and w1: "inode_ok X1 st1 I" and g1: "grows I X st X1 st1"
          by (auto simp: bts_post_def)
        have len1: "inode_len st1 I = len" unfolding len_def using g1 by (rule inode_len_grows)
        obtain st3 bs1 where eq: "inode_read_loop inode st sz offset buf n =
              inode_read_loop inode st3 (sz - c) (offset + c) (buf @ bs1) (n + c)"
          and l1: "length bs1 = nat c"
          and w3: "inode_ok X1 st3 I" and fm3: "free_map st3 = free_map st1"
          and vs3: "\<And>s'. s' \<notin> X1 \<Longrightarrow> cache_view st3 s' = cache_view st1 s'"
          and ir3: "\<And>q. valid_pos q \<Longrightarrow> iref (cache_view st3) I q = iref (cache_view st1) I q"
          unfolding c_def len1 [symmetric]
          by (rule read_iter_after [OF Some [unfolded a] w1 I o0 _ _ sz d(2,1), of buf n])
            (use lt mx len1 in \<open>simp_all add: len_def\<close>)
        have g3: "grows I X1 st1 X1 st3" using w1 fm3 vs3 ir3 by (rule grows_refl_frame)
        have len3: "inode_len st3 I = len" using inode_len_grows [OF g3] len1 by simp
        have o3: "0 \<le> offset + c" using o0 cs(2) by simp
        have mx3: "inode_len st3 I \<le> MAX_FILE" using mx by (simp add: len3 len_def)
        have "nat (sz - c) < nat sz" using cs(2) sz by simp
        then have rp: "read_post I X1 st3 (max 0 (min (sz - c) (inode_len st3 I - (offset + c))))
            (buf @ bs1) (n + c)
            (inode_read_loop inode st3 (sz - c) (offset + c) (buf @ bs1) (n + c))"
          using w3 I o3 mx3 by (rule less.hyps)
        show ?thesis
        proof (cases "inode_read_loop inode st3 (sz - c) (offset + c) (buf @ bs1) (n + c)")
          case None
          then show ?thesis by (simp add: eq read_post_def)
        next
          case (Some r)
          obtain n' bs' st' where r: "r = (n', bs', st')" by (cases r)
          from rp Some r obtain X' where n': "n' = n + c + max 0 (min (sz - c) (len - (offset + c)))"
            and lb: "int (length bs') = int (length (buf @ bs1)) + max 0 (min (sz - c) (len - (offset + c)))"
            and tk: "take (length (buf @ bs1)) bs' = buf @ bs1"
            and w': "inode_ok X' st' I" and g': "grows I X1 st3 X' st'"
            by (auto simp: read_post_def len3)
          have g: "grows I X st X' st'" using grows_trans [OF g1 grows_trans [OF g3 g']] .
          have "take (length buf) (take (length (buf @ bs1)) bs') = buf" unfolding tk by simp
          then have tb: "take (length buf) bs' = buf" by (simp add: min_def)
          show ?thesis
            unfolding eq Some r read_post_def
            using n' lb tb w' g cs(1) l1 cs(2) by (auto simp: len_def)
        qed
      qed
    qed
  qed
qed


text \<open>A newly created inode is well formed, and its index is empty.\<close>

lemma inode_create_ok:
  assumes ok: "cache_ok X st" and new: "s \<notin> cached st" and s0: "s \<noteq> 0"
    and len: "0 \<le> len" "len < 2 ^ 31"
    and fm: "length (free_map st) \<le> 2 ^ 32" "allocated (free_map st) 0" "allocated (free_map st) s"
    and ca: "cached st \<subseteq> {s. allocated (free_map st) s}"
  obtains st' where "inode_create st s len = Some (True, st')" "inode_ok (X - {s}) st' s"
    "inode_len st' s = len" "\<And>q. valid_pos q \<Longrightarrow> iref (cache_view st') s q = 0"
    "free_map st' = free_map st"
proof -
  define img where "img = inode_disk_bytes \<lparr>ilength = len, dir = False, direct = replicate 12 0,
       indirect = 0, double_indirect = 0, magic = INODE_MAGIC\<rparr>"
  have img: "img = bytes_of_word (word_of_int len) @ replicate 60 0 @ bytes_of_word INODE_MAGIC"
    unfolding img_def by (rule inode_disk_bytes_fresh)
  then have limg: "length img = 68" by simp
  obtain st2 where cr: "cache_create st s = Some st2"
    and ok2: "cache_ok (insert s X) st2" and fm2: "free_map st2 = free_map st"
    and sub2: "cached st2 \<subseteq> insert s (cached st)" and v2: "cache_view st2 s = zero_sector"
    by (rule cache_create_ok [OF ok new]) blast
  obtain st3 where wr: "cache_write st2 s img 0 SIZEOF_INODE_DISK = Some st3"
    and ok3: "cache_ok (insert s X - {s}) st3" and fm3: "free_map st3 = free_map st2"
    and sub3: "cached st3 \<subseteq> insert s (cached st2)"
    and v3: "cache_view st3 s = patch (cache_view st2 s) (nat 0) (take SIZEOF_INODE_DISK img)"
    by (rule cache_write_ok [OF ok2, of 0 SIZEOF_INODE_DISK img s])
      (simp_all add: SIZEOF_INODE_DISK_def DISK_SECTOR_SIZE_def limg)
  have ic: "inode_create st s len = Some (True, st3)"
    using s0 len cr wr by (simp add: inode_create_def img_def numeral_eq_Suc)
  have v: "cache_view st3 s = bytes_of_word (word_of_int len) @ replicate 60 0
      @ bytes_of_word INODE_MAGIC @ replicate 444 0"
    unfolding v3 v2 using limg
    by (simp add: patch_def SIZEOF_INODE_DISK_def zero_sector_def DISK_SECTOR_SIZE_def img)
  have w0: "word_at (cache_view st3 s) 56 = 0" "word_at (cache_view st3 s) 60 = 0"
    "\<And>i. i < 12 \<Longrightarrow> word_at (cache_view st3 s) (8 + 4 * i) = 0"
    unfolding v by (simp_all add: fresh_inode_words)
  have ir: "iref (cache_view st3) s q = 0" if "valid_pos q" for q
    using that w0 by (cases q) (simp_all add: dbl_slot_def)
  have il: "inode_len st3 s = len"
    unfolding inode_len_def v fresh_inode_words(1) using len
    by (simp add: sint_sbintrunc' signed_take_bit_int_eq_self)
  have idx: "index_sector (cache_view st3) s x \<longleftrightarrow> x = s" for x
    using ir by (auto simp: index_sector_def)
  have X3: "insert s X - {s} = X - {s}" by auto
  have w: "inode_ok (X - {s}) st3 s"
    unfolding inode_ok_def walk_ok_def
  proof (intro conjI allI impI ballI)
    show "cache_ok (X - {s}) st3" using ok3 by (simp add: X3)
    show "tree_ok (cache_view st3) s (free_map st3)"
      using fm ir by (auto simp: tree_ok_def fm3 fm2)
    show "cached st3 \<subseteq> {s. allocated (free_map st3) s}"
      using sub3 sub2 ca fm(3) by (auto simp: fm3 fm2)
  next
    fix x assume "index_sector (cache_view st3) s x"
    then show "x \<notin> X - {s} \<or> x \<in> {}" by (simp add: idx)
  qed simp_all
  from ic w il ir show ?thesis by (intro that [of st3]) (simp_all add: fm3 fm2)
qed

text \<open>\<^verbatim>\<open>byte_to_sector\<close> on a direct block with no sector yet: it takes one from the free-map.\<close>

lemma bts_alloc_direct:
  assumes w: "inode_ok X st I" and I: "isector inode = I"
    and pos: "0 \<le> pos" "pos < inode_len st I" "pos div 512 < 12"
    and z: "iref (cache_view st) I (Direct (nat (pos div 512))) = 0"
    and al: "free_map_allocate (free_map st) = Some (p, fm')"
  obtains st' where "byte_to_sector st inode pos = Some (p, st')"
    "inode_ok (insert p X) st' I" "free_map st' = fm'"
    "\<And>q. valid_pos q \<Longrightarrow> iref (cache_view st') I q
        = (if q = Direct (nat (pos div 512)) then p else iref (cache_view st) I q)"
    "inode_len st' I = inode_len st I" "p \<noteq> 0"
proof -
  define b where "b = nat (pos div 512)"
  have b: "b < 12" using pos by (simp add: b_def)
  obtain st1 where rd: "cache_read st I 0 4 = Some (take 4 (drop (nat 0) (cache_view st I)), st1)"
    and w1: "inode_ok X st1 I" and fm1: "free_map st1 = free_map st"
    and vs1: "\<And>s'. s' \<notin> X \<Longrightarrow> cache_view st1 s' = cache_view st s'"
    and ir1: "\<And>q. valid_pos q \<Longrightarrow> iref (cache_view st1) I q = iref (cache_view st) I q"
    using inode_ok_I [OF w] by (auto intro: read_ok [OF w, of I 0 4] simp: DISK_SECTOR_SIZE_def)
  have g1: "grows I X st X st1" using w fm1 vs1 ir1 by (rule grows_refl_frame)
  have q: "valid_pos (Direct b)" "top_pos (Direct b)" using b by simp_all
  have hI: "home (cache_view st1) I (Direct b) = I" by (simp add: home_def)
  have z1: "iref (cache_view st1) I (Direct b) = 0" using ir1 [OF q(1)] z by (simp add: b_def)
  have al1: "free_map_allocate (free_map st1) = Some (p, fm')" using al fm1 by simp
  obtain st' where m: "MODIFY_CACHE st1 I (int (hofs (Direct b))) = Some (p, st')"
    and w': "walk_ok {p} (insert p (X - {I})) st' I" and fm': "free_map st' = fm'"
    and ir': "\<And>q'. valid_pos q' \<Longrightarrow>
        iref (cache_view st') I q' = (if q' = Direct b then p else iref (cache_view st1) I q')"
    and vI: "cache_view st' I = patch (cache_view st1 I) (hofs (Direct b)) (bytes_of_word p)"
    and p0: "p \<noteq> 0"
    using modify_alloc [OF w1 [unfolded inode_ok_def] q(1) disjI1 [OF q(2)] z1 _ al1]
    unfolding hI by (metis empty_subsetI)
  have bts: "byte_to_sector st inode pos = Some (p, st')"
    using rd pos(2) b m
    by (simp add: byte_to_sector_walk [OF pos(1)] I b_def [symmetric] inode_len_def word_at_def path_def)
  have pd: "p = iref (cache_view st') I (Direct b)" using ir' [OF q(1)] by simp
  have "\<not> index_sector (cache_view st') I p"
    using data_not_index [of "cache_view st'" I "free_map st'" "Direct b"] w' q(1) p0 pd
    by (auto simp: walk_ok_def)
  then have "inode_ok (insert p (X - {I})) st' I" by (intro walk_ok_drop [OF w']) auto
  moreover have "I \<notin> X" using inode_ok_I [OF w] by simp
  ultimately have wf: "inode_ok (insert p X) st' I" by simp
  have ok1: "cache_ok X st1" using w1 by (simp add: inode_ok_def walk_ok_def)
  have "length (cache_view st1 I) = 512"
    using length_cache_view [OF ok1, of I] by (simp add: DISK_SECTOR_SIZE_def)
  then have "take 4 (cache_view st' I) = take 4 (cache_view st1 I)"
    unfolding vI using b by (intro take_patch_before) simp_all
  then have "inode_len st' I = inode_len st1 I" by (simp add: inode_len_def word_at_def)
  also have "\<dots> = inode_len st I" using w vs1 by (rule inode_len_frame)
  finally have il: "inode_len st' I = inode_len st I" .
  show ?thesis
  proof (rule that [of st'])
    show "iref (cache_view st') I q = (if q = Direct (nat (pos div 512)) then p else iref (cache_view st) I q)"
      if "valid_pos q" for q using ir' [OF that] ir1 [OF that] by (simp add: b_def)
  qed (use bts wf fm' il p0 in simp_all)
qed


section \<open>Concrete states\<close>

text \<open>
  The state after \<^verbatim>\<open>inode_create (1, 512)\<close> on the boot state: a file of 512 bytes with
  no data block yet; the same file on a disk with no free sector; and the file once
  sector 2 has become its first block.
\<close>

definition sparse_fs :: fs where
  "sparse_fs = \<lparr>caches = [\<lparr>sector = 1, dirty = True,
       data = bytes_of_word 512 @ replicate 60 0 @ bytes_of_word INODE_MAGIC @ replicate 444 0\<rparr>],
     cache_count = 1, disk = (\<lambda>_. zero_sector), free_map = [True, True, False, False]\<rparr>"


definition mapped_fs :: fs where
  "mapped_fs = \<lparr>caches = [\<lparr>sector = 2, dirty = False, data = replicate 512 0\<rparr>,
       \<lparr>sector = 1, dirty = True,
        data = bytes_of_word 512 @ replicate 4 0 @ bytes_of_word 2 @ replicate 52 0
               @ bytes_of_word INODE_MAGIC @ replicate 444 0\<rparr>],
     cache_count = 2, disk = (\<lambda>_. zero_sector), free_map = [True, True, True, False]\<rparr>"

definition ino1 :: inode where
  "ino1 = \<lparr>isector = 1, open_cnt = 1, removed = False, deny_write_cnt = 0\<rparr>"

lemma cache_ok_boot: "cache_ok {} (boot_fs\<lparr>free_map := fm\<rparr>)"
  by (simp add: cache_ok_def cache_inv_def boot_fs_def CACHE_MAX_def zero_sector_def DISK_SECTOR_SIZE_def)

lemma create_boot:
  "inode_create (boot_fs\<lparr>free_map := fm\<rparr>) 1 512 = Some (True, sparse_fs\<lparr>free_map := fm\<rparr>)"
proof -
  let ?st = "boot_fs\<lparr>free_map := fm\<rparr>"
  let ?c = "\<lparr>sector = 1, dirty = False, data = replicate DISK_SECTOR_SIZE 0\<rparr>"
  have mk: "cache_create ?st 1 = Some (?st\<lparr>caches := [?c], cache_count := 1\<rparr>)"
    by (simp add: cache_create_def cache_make_def boot_fs_def CACHE_MAX_def)
  have img: "inode_disk_bytes \<lparr>ilength = 512, dir = False, direct = 0 # replicate 11 0,
       indirect = 0, double_indirect = 0, magic = INODE_MAGIC\<rparr>
     = bytes_of_word 512 @ replicate 60 0 @ bytes_of_word INODE_MAGIC"
    using inode_disk_bytes_fresh [of 512 INODE_MAGIC] by (simp add: numeral_eq_Suc)
  have wr: "cache_write (?st\<lparr>caches := [?c], cache_count := 1\<rparr>) 1
        (bytes_of_word 512 @ replicate 60 0 @ bytes_of_word INODE_MAGIC) 0 SIZEOF_INODE_DISK
      = Some (sparse_fs\<lparr>free_map := fm\<rparr>)"
    by (subst cache_write_front [where c = ?c and cs = "[]"])
      (simp_all add: SIZEOF_INODE_DISK_def DISK_SECTOR_SIZE_def patch_def sparse_fs_def boot_fs_def)
  show ?thesis
    unfolding inode_create_def by (simp add: mk img wr)
qed

lemma sparse_ok:
  assumes "length fm \<le> 2 ^ 32" "allocated fm 0" "allocated fm 1"
  shows "inode_ok {} (sparse_fs\<lparr>free_map := fm\<rparr>) 1"
    "inode_len (sparse_fs\<lparr>free_map := fm\<rparr>) 1 = 512"
    "valid_pos q \<Longrightarrow> iref (cache_view (sparse_fs\<lparr>free_map := fm\<rparr>)) 1 q = 0"
proof -
  have c: "cached (boot_fs\<lparr>free_map := fm\<rparr>) = {}" by (simp add: cached_def boot_fs_def)
  obtain st' where "inode_create (boot_fs\<lparr>free_map := fm\<rparr>) 1 512 = Some (True, st')"
    "inode_ok ({} - {1}) st' 1" "inode_len st' 1 = 512"
    "\<And>q. valid_pos q \<Longrightarrow> iref (cache_view st') 1 q = 0"
    by (rule inode_create_ok [OF cache_ok_boot [of fm], of 1 512]) (use assms c in simp_all)
  then show "inode_ok {} (sparse_fs\<lparr>free_map := fm\<rparr>) 1"
    "inode_len (sparse_fs\<lparr>free_map := fm\<rparr>) 1 = 512"
    "valid_pos q \<Longrightarrow> iref (cache_view (sparse_fs\<lparr>free_map := fm\<rparr>)) 1 q = 0"
    by (simp_all add: create_boot)
qed

lemma sparse_fs_ok: "inode_ok {} sparse_fs 1" "inode_len sparse_fs 1 = 512"
  using sparse_ok(1,2) [of "[True, True, False, False]"]
  by (simp_all add: allocated_def sparse_fs_def)


lemma word_of_bytes_zero4 [simp]: "word_of_bytes (replicate 4 0) = 0"
  by (rule word_of_bytes_zero) simp

lemmas eval_defs = byte_to_sector_def cache_read_def cache_lookup_def
  list_remove_def DISK_SECTOR_SIZE_def word_of_bytes_of_word c_div_def c_mod_def SINGLE_BLOCK_def
  DIRECT_BLOCK_def OFS_DIRECT_def MODIFY_CACHE_def free_map_allocate_def cache_write_def
  cache_create_def cache_make_def CACHE_MAX_def patch_def Let_def inode_length_def
  inode_read_at_def inode_read_loop.simps inode_write_at_def inode_write_loop.simps

lemma read_sparse: "inode_read_at sparse_fs ino1 1 0 = Some (1, [0], mapped_fs)"
  by (simp add: eval_defs sparse_fs_def ino1_def mapped_fs_def)

lemma isector_ino1 [simp]: "isector ino1 = 1" "deny_write_cnt ino1 = 0"
  by (simp_all add: ino1_def)

lemma mapped_fs_ok: "\<exists>X. inode_ok X mapped_fs 1"
  using read_loop_gen [OF sparse_fs_ok(1), of ino1 0 1 "[]" 0]
  by (auto simp: read_post_def sparse_fs_ok(2) MAX_FILE_def
      read_sparse [unfolded inode_read_at_def])

lemma mapped_fs_index: "inode_len mapped_fs 1 = 512" "iref (cache_view mapped_fs) 1 (Direct 0) = 2"
  by (simp_all add: inode_len_def cache_view_def mapped_fs_def word_at_def word_of_bytes_of_word)


section \<open>Reading\<close>

text \<open>
  C3 (amended). In a well-formed state, with \<open>0 \<le> offset\<close> and a length within the
  maximum file size, \<^verbatim>\<open>inode_read_at\<close> on a range whose blocks below the length all have
  a sector returns, takes no sector from the free-map and leaves every slot of the index
  (direct, indirect, double-indirect and the slots of the index blocks) as it was.
\<close>

theorem C3_read_mapped_no_allocation:
  assumes "inode_ok X st I" and "isector inode = I" and "0 \<le> offset"
    and "inode_len st I \<le> MAX_FILE"
    and "\<forall>pos. offset \<le> pos \<and> pos < offset + sz \<and> pos < inode_len st I \<longrightarrow>
           iref (cache_view st) I (block_pos (nat (pos div 512))) \<noteq> 0"
  shows "\<exists>n bs st'. inode_read_at st inode sz offset = Some (n, bs, st') \<and>
           free_map st' = free_map st \<and>
           (\<forall>q. valid_pos q \<longrightarrow> iref (cache_view st') I q = iref (cache_view st) I q)"
proof -
  from assms(5) have "\<And>pos. offset \<le> pos \<Longrightarrow> pos < offset + sz \<Longrightarrow> pos < inode_len st I \<Longrightarrow>
      iref (cache_view st) I (block_pos (nat (pos div 512))) \<noteq> 0" by simp
  from read_loop_mapped [OF assms(1-4) this, of sz "[]" 0]
  show ?thesis unfolding inode_read_at_def by blast
qed

theorem C3_witness:
  "(\<exists>X. inode_ok X mapped_fs 1) \<and> isector ino1 = 1 \<and> inode_len mapped_fs 1 = 512 \<and>
   iref (cache_view mapped_fs) 1 (block_pos 0) = 2 \<and>
   (\<exists>n bs st'. inode_read_at mapped_fs ino1 512 0 = Some (n, bs, st') \<and>
      free_map st' = free_map mapped_fs \<and>
      (\<forall>q. valid_pos q \<longrightarrow> iref (cache_view st') 1 q = iref (cache_view mapped_fs) 1 q))"
proof -
  obtain X where ok: "inode_ok X mapped_fs 1" using mapped_fs_ok ..
  have b: "block_pos 0 = Direct 0" by (simp add: block_pos_def)
  have m: "\<forall>pos. 0 \<le> pos \<and> pos < 0 + 512 \<and> pos < inode_len mapped_fs 1 \<longrightarrow>
      iref (cache_view mapped_fs) 1 (block_pos (nat (pos div 512))) \<noteq> 0"
  proof (intro allI impI)
    fix pos :: int assume "0 \<le> pos \<and> pos < 0 + 512 \<and> pos < inode_len mapped_fs 1"
    then have "pos div 512 = 0" by simp
    then show "iref (cache_view mapped_fs) 1 (block_pos (nat (pos div 512))) \<noteq> 0"
      using mapped_fs_index(2) by (simp add: b)
  qed
  have "inode_len mapped_fs 1 \<le> MAX_FILE" by (simp add: mapped_fs_index MAX_FILE_def)
  from C3_read_mapped_no_allocation [OF ok isector_ino1(1) _ this m] ok mapped_fs_index(2)
  show ?thesis by (auto simp: mapped_fs_index(1) b)
qed

text \<open>
  The claim as stated fails on a file whose first block has no sector yet: reading one
  byte of the 512-byte file that \<^verbatim>\<open>inode_create\<close> has just made takes sector 2 from the
  free-map and stores it in \<^verbatim>\<open>direct[0]\<close>.
\<close>

theorem C3_counterexample:
  "inode_create boot_fs 1 512 = Some (True, sparse_fs) \<and>
   inode_read_at sparse_fs ino1 1 0 = Some (1, [0], mapped_fs) \<and>
   free_map sparse_fs = [True, True, False, False] \<and>
   free_map mapped_fs = [True, True, True, False] \<and>
   iref (cache_view sparse_fs) 1 (Direct 0) = 0 \<and>
   iref (cache_view mapped_fs) 1 (Direct 0) = 2"
proof -
  have "inode_create boot_fs 1 512 = Some (True, sparse_fs)"
    using create_boot [of "[True, True, False, False]"] by (simp add: boot_fs_def sparse_fs_def)
  moreover have "iref (cache_view sparse_fs) 1 (Direct 0) = 0"
    using sparse_ok(3) [where fm = "[True, True, False, False]" and q = "Direct 0"]
    by (simp add: allocated_def sparse_fs_def)
  moreover have "free_map sparse_fs = [True, True, False, False]"
    "free_map mapped_fs = [True, True, True, False]"
    by (simp_all add: sparse_fs_def mapped_fs_def)
  ultimately show ?thesis
    using read_sparse mapped_fs_index(2) by (intro conjI)
qed





section \<open>Closing a removed inode\<close>

text \<open>
  A removed file of 142 blocks of which only blocks 140 and 141 have sectors: the inode
  in sector 5, its double-indirect block in sector 6, the first second-level block in
  sector 7, the two data blocks in sectors 8 and 9. Nothing is cached.
\<close>

definition removed_fs :: fs where
  "removed_fs = \<lparr>caches = [], cache_count = 0,
     disk = (\<lambda>_. zero_sector)
       (5 := bytes_of_word 72704 @ replicate 56 0 @ bytes_of_word 6 @ bytes_of_word INODE_MAGIC
             @ replicate 444 0,
        6 := bytes_of_word 7 @ replicate 508 0,
        7 := bytes_of_word 8 @ bytes_of_word 9 @ replicate 504 0),
     free_map = [True, True, True, True, True, True, True, True, True, True]\<rparr>"

definition ino5 :: inode where
  "ino5 = \<lparr>isector = 5, open_cnt = 1, removed = True, deny_write_cnt = 0\<rparr>"

lemmas close_defs = inode_close_def close_blocks_def close_direct_def
  close_single_def close_inner_def release_def cache_remove_def free_map_release_def
  cache_read_def cache_lookup_def cache_make_def CACHE_MAX_def DISK_SECTOR_SIZE_def
  SIZEOF_INODE_DISK_def list_remove_def word_at_def word_of_bytes_of_word upt_rec Let_def
  zero_sector_def

text \<open>
  C1 (the code at the failing input). The last close of the removed inode releases
  sector 5 (the inode), 6 (the double-indirect block), 7 (the second-level block), and
  then sector 8 twice: for each non-zero slot \<open>j\<close> of the second-level block \<open>i = 0\<close> the
  inner loop releases \<^verbatim>\<open>double_indirect[i]\<close>. Sector 9, the block in slot \<open>j = 1\<close>, stays
  allocated.
\<close>

theorem C1_close_double_indirect:
  "iref (cache_view removed_fs) 5 Dbl = 6 \<and>
   iref (cache_view removed_fs) 5 (DblSlot 0) = 7 \<and>
   iref (cache_view removed_fs) 5 (L2Slot 0 0) = 8 \<and>
   iref (cache_view removed_fs) 5 (L2Slot 0 1) = 9 \<and>
   map_option (snd \<circ> snd) (inode_close removed_fs ino5) = Some [5, 6, 7, 8, 8] \<and>
   map_option (free_map \<circ> fst \<circ> snd) (inode_close removed_fs ino5)
     = Some [True, True, True, True, True, False, False, False, False, True]"
proof -
  have "iref (cache_view removed_fs) 5 Dbl = 6" "iref (cache_view removed_fs) 5 (DblSlot 0) = 7"
    "iref (cache_view removed_fs) 5 (L2Slot 0 0) = 8" "iref (cache_view removed_fs) 5 (L2Slot 0 1) = 9"
    by (simp_all add: cache_view_def removed_fs_def dbl_slot_def word_at_def word_of_bytes_of_word)
  moreover have "map_option (snd \<circ> snd) (inode_close removed_fs ino5) = Some [5, 6, 7, 8, 8]"
    by (simp add: close_defs ino5_def removed_fs_def)
  moreover have "map_option (free_map \<circ> fst \<circ> snd) (inode_close removed_fs ino5)
     = Some [True, True, True, True, True, False, False, False, False, True]"
    by (simp add: close_defs ino5_def removed_fs_def)
  ultimately show ?thesis by (intro conjI)
qed


section \<open>Writing\<close>









section \<open>Allocation failure\<close>





end
